theory Spec2Isabelle
  imports Complex_Main "HOL-Library.Multiset" "HOL-Library.Product_Lexorder"
    "HOL-Library.List_Lexorder" "HOL-Library.Sublist"
begin

section \<open>Time\<close>

text \<open>
  A naive Python \<^verbatim>\<open>datetime\<close> is a count of microseconds, and a \<^verbatim>\<open>timedelta\<close>
  is a difference of two such counts; both are integers here.  The three durations the
  program builds (\<^verbatim>\<open>timedelta(hours=24)\<close>, \<^verbatim>\<open>timedelta(hours=4)\<close>,
  \<^verbatim>\<open>timedelta(hours=0.25)\<close>) are whole numbers of microseconds, so no rounding occurs.
\<close>

type_synonym datetime = int
type_synonym timedelta = int

definition timedelta_hours :: "rat \<Rightarrow> timedelta" where
  "timedelta_hours h = \<lfloor>h * 3600000000\<rfloor>"

definition timedelta_minutes :: "rat \<Rightarrow> timedelta" where
  "timedelta_minutes m = \<lfloor>m * 60000000\<rfloor>"

definition timedelta_seconds :: "rat \<Rightarrow> timedelta" where
  "timedelta_seconds s = \<lfloor>s * 1000000\<rfloor>"

section \<open>Scan records\<close>

text \<open>
  A scan is a dictionary with string values (drifter_tracker.py, lines 1239-1249 and
  1586-1596).  The field \<open>scannedAt\<close> holds an ISO string in the program; the model keeps
  what \<^verbatim>\<open>datetime.fromisoformat(scan['scannedAt'])\<close> makes of it: \<open>Some t\<close> when the
  string parses to the naive datetime \<open>t\<close>, and \<open>None\<close> when the \<^verbatim>\<open>try\<close> block of the
  expiry check raises (the string does not parse).
\<close>

record scan =
  scan_id :: int
  region :: string
  system :: string
  holeType :: string
  lifeStatus :: string
  massStatus :: string
  roleId :: string
  rawInfo :: string
  scannedAt :: "datetime option"

subsection \<open>calculate_spawn_time (drifter_tracker.py, lines 1513-1550)\<close>

text \<open>The first argument is the value of \<^verbatim>\<open>datetime.now()\<close>, read when \<open>scan_time\<close> is None.\<close>

definition calculate_spawn_time :: "datetime \<Rightarrow> string \<Rightarrow> datetime option \<Rightarrow> datetime" where
  "calculate_spawn_time now life_status scan_time_opt =
     (let scan_time = (case scan_time_opt of None \<Rightarrow> now | Some t \<Rightarrow> t) in
      if life_status = ''Fresh'' then scan_time
      else if life_status = ''Destabilizing'' then scan_time - timedelta_hours 4
      else if life_status = ''Critical'' then scan_time - timedelta_hours 24
      else scan_time)"

subsection \<open>The expiry filter of build_connection_graph (lines 2999-3018)\<close>

definition LIFETIME_HOURS :: "string \<rightharpoonup> rat" where
  "LIFETIME_HOURS = [''Fresh'' \<mapsto> 24, ''Destabilizing'' \<mapsto> 4, ''Critical'' \<mapsto> 1/4]"

definition dict_get :: "('k \<rightharpoonup> 'v) \<Rightarrow> 'k \<Rightarrow> 'v \<Rightarrow> 'v" where
  "dict_get d k dflt = (case d k of Some v \<Rightarrow> v | None \<Rightarrow> dflt)"

text \<open>
  \<open>expired now scan\<close> is True exactly when the \<^verbatim>\<open>try\<close> block reaches its
  \<^verbatim>\<open>continue\<close>.  When the block raises, the bare \<^verbatim>\<open>except: pass\<close> falls through
  and the scan is appended.
\<close>

definition expired :: "datetime \<Rightarrow> scan \<Rightarrow> bool" where
  "expired now scan =
     (case scannedAt scan of
        None \<Rightarrow> False
      | Some scanned_time \<Rightarrow>
          (let lifetime = dict_get LIFETIME_HOURS (lifeStatus scan) 24;
               age = now - scanned_time
           in age > timedelta_hours lifetime))"

fun active_wormholes :: "datetime \<Rightarrow> scan list \<Rightarrow> scan list" where
  "active_wormholes now [] = []"
| "active_wormholes now (scan # scans) =
     (if holeType scan = ''None'' then active_wormholes now scans
      else if expired now scan then active_wormholes now scans
      else scan # active_wormholes now scans)"

section \<open>The connection graph\<close>

text \<open>
  build_connection_graph (drifter_tracker.py, lines 2993-3042).  The dictionary
  \<open>connections\<close> maps a system name to a list of pairs (system name, scan); it is an
  association list in insertion order, the order in which Python iterates over its keys.
\<close>

type_synonym connections = "(string \<times> (string \<times> scan) list) list"

definition conn_get :: "connections \<Rightarrow> string \<Rightarrow> (string \<times> scan) list" where
  "conn_get conns k = (case map_of conns k of Some v \<Rightarrow> v | None \<Rightarrow> [])"

definition conn_setdefault :: "connections \<Rightarrow> string \<Rightarrow> connections" where
  "conn_setdefault conns k = (if k \<in> set (map fst conns) then conns else conns @ [(k, [])])"

definition conn_append :: "connections \<Rightarrow> string \<Rightarrow> string \<times> scan \<Rightarrow> connections" where
  "conn_append conns k e = map (\<lambda>(k', v). if k' = k then (k', v @ [e]) else (k', v)) conns"

fun inner_loop :: "nat \<Rightarrow> scan \<Rightarrow> (nat \<times> scan) list \<Rightarrow> connections \<Rightarrow> connections" where
  "inner_loop i scan [] conns = conns"
| "inner_loop i scan ((j, other_scan) # rest) conns =
     (if i = j then inner_loop i scan rest conns
      else if holeType scan = holeType other_scan
        then inner_loop i scan rest (conn_append conns (system scan) (system other_scan, other_scan))
        else inner_loop i scan rest conns)"

fun outer_loop :: "scan list \<Rightarrow> (nat \<times> scan) list \<Rightarrow> connections \<Rightarrow> connections" where
  "outer_loop act [] conns = conns"
| "outer_loop act ((i, scan) # rest) conns =
     outer_loop act rest (inner_loop i scan (enumerate 0 act) (conn_setdefault conns (system scan)))"

definition build_connection_graph :: "datetime \<Rightarrow> scan list \<Rightarrow> connections" where
  "build_connection_graph now scans =
     (let active = active_wormholes now scans in outer_loop active (enumerate 0 active) [])"

definition edges_from :: "nat \<Rightarrow> scan \<Rightarrow> (nat \<times> scan) list \<Rightarrow> (string \<times> scan) list" where
  "edges_from i a js =
     map (\<lambda>(j, other). (system other, other))
       (filter (\<lambda>(j, other). i \<noteq> j \<and> holeType a = holeType other) js)"

section \<open>Route scores\<close>

text \<open>
  calculate_route_score_single (drifter_tracker.py, lines 2664-2701) and
  calculate_route_score_multihop (lines 2703-2747).  \<open>py_in needle s\<close> is Python's
  \<^verbatim>\<open>needle in s\<close> on strings: \<open>needle\<close> occurs in \<open>s\<close> as a contiguous substring.
\<close>

fun py_in :: "string \<Rightarrow> string \<Rightarrow> bool" where
  "py_in needle [] = (needle = [])"
| "py_in needle (c # cs) = (prefix needle (c # cs) \<or> py_in needle cs)"

definition calculate_route_score_single :: "int \<Rightarrow> int \<Rightarrow> scan \<Rightarrow> int" where
  "calculate_route_score_single entry_gates exit_gates wh_data =
     (let score = 0;
          total_gates = entry_gates + exit_gates;
          score = score + total_gates;
          score = (if lifeStatus wh_data = ''Critical'' then score + 60 else score);
          score = (if py_in ''< 10%'' (massStatus wh_data) then score + 50 else score);
          score = (if lifeStatus wh_data = ''Destabilizing'' then score + 25 else score);
          score = (if py_in ''50% > 10%'' (massStatus wh_data) then score + 20 else score);
          score = (if total_gates > 15 then score + 10 else score);
          score = (if total_gates < 10 \<and> lifeStatus wh_data = ''Fresh''
                      \<and> py_in ''100% > 50%'' (massStatus wh_data)
                   then score - 5 else score)
      in score)"

definition multihop_hole_penalty :: "int \<Rightarrow> scan \<Rightarrow> int" where
  "multihop_hole_penalty score wh_data =
     (let score = (if lifeStatus wh_data = ''Critical'' then score + 50
                   else if lifeStatus wh_data = ''Destabilizing'' then score + 20
                   else score);
          score = (if py_in ''< 10%'' (massStatus wh_data) then score + 45
                   else if py_in ''50% > 10%'' (massStatus wh_data) then score + 18
                   else score)
      in score)"

definition calculate_route_score_multihop :: "int \<Rightarrow> int \<Rightarrow> scan \<Rightarrow> scan \<Rightarrow> int" where
  "calculate_route_score_multihop entry_gates exit_gates wh_data_1 wh_data_2 =
     (let score = 0;
          total_gates = entry_gates + exit_gates;
          score = score + total_gates;
          BURN_TIME_PENALTY = 15;
          NPC_DANGER_PENALTY = 10;
          COMPLEXITY_PENALTY = 5;
          score = score + (BURN_TIME_PENALTY + NPC_DANGER_PENALTY + COMPLEXITY_PENALTY);
          score = foldl multihop_hole_penalty score [wh_data_1, wh_data_2];
          score = (if list_all (\<lambda>wh. lifeStatus wh = ''Fresh'' \<and> py_in ''100% > 50%'' (massStatus wh))
                        [wh_data_1, wh_data_2]
                   then score - 5 else score)
      in score)"

subsection \<open>The score formulas as the specification words them\<close>

text \<open>
  The specification tests the mass status for equality with one of its values, where the
  program tests for a substring.  \<open>plain_mass\<close> holds of a mass status that contains one
  of the three keywords only when it is that keyword; the four values of the data model
  are plain.
\<close>

definition spec_single_hop_score :: "int \<Rightarrow> string \<Rightarrow> string \<Rightarrow> int" where
  "spec_single_hop_score totalGates life mass =
     totalGates
     + (if life = ''Critical'' then 60 else if life = ''Destabilizing'' then 25 else 0)
     + (if mass = ''< 10%'' then 50 else if mass = ''50% > 10%'' then 20 else 0)
     + (if totalGates > 15 then 10 else 0)
     - (if totalGates < 10 \<and> life = ''Fresh'' \<and> mass = ''100% > 50%'' then 5 else 0)"

definition spec_per_hole_penalty :: "string \<Rightarrow> string \<Rightarrow> int" where
  "spec_per_hole_penalty life mass =
     (if life = ''Critical'' then 50 else if life = ''Destabilizing'' then 20 else 0)
     + (if mass = ''< 10%'' then 45 else if mass = ''50% > 10%'' then 18 else 0)"

definition spec_two_hop_score :: "int \<Rightarrow> string \<Rightarrow> string \<Rightarrow> string \<Rightarrow> string \<Rightarrow> int" where
  "spec_two_hop_score totalGates life1 mass1 life2 mass2 =
     totalGates + 30 + (spec_per_hole_penalty life1 mass1 + spec_per_hole_penalty life2 mass2)
     - (if life1 = ''Fresh'' \<and> mass1 = ''100% > 50%'' \<and> life2 = ''Fresh'' \<and> mass2 = ''100% > 50%''
        then 5 else 0)"

definition plain_mass :: "string \<Rightarrow> bool" where
  "plain_mass mass =
     list_all (\<lambda>k. py_in k mass \<longrightarrow> mass = k) [''< 10%'', ''50% > 10%'', ''100% > 50%'']"

section \<open>The static pathfinder\<close>

text \<open>
  find_path (eve_sde_loader.py, lines 602-674).  The loader's four dictionaries are maps.
  The priority queue holds tuples (cost, current_id, path); \<^verbatim>\<open>heapq.heappop\<close> returns
  the least tuple in Python's tuple order, which is the lexicographic order of the triple
  (numbers, then lists compared element by element), so the queue is a list and a pop
  removes its minimum.

  A cost is a Python float.  Every cost the loop computes is 0 or a double of at least
  0.3 and below 256, hence a whole multiple of 2 to the power -54; a cost is
  represented by that multiple, an integer (\<open>GATE_COST\<close> is the double 1.0 and
  \<open>JUMPBRIDGE_COST\<close> the double written 0.3).  \<open>float_add\<close> is the addition of two such
  doubles: the exact sum rounded to 53 significant bits, ties to even.  With it ten
  jumpbridge steps cost 2.9999999999999996, less than three gate steps, as in Python.
\<close>

datatype error = KeyError

record sde_loader =
  system_name_to_id :: "string \<rightharpoonup> int"
  system_id_to_name :: "int \<rightharpoonup> string"
  system_jumps :: "int \<rightharpoonup> int list"
  jumpbridges :: "int \<rightharpoonup> int list"

type_synonym pq_entry = "int \<times> int \<times> int list"

definition heappop :: "pq_entry list \<Rightarrow> pq_entry \<times> pq_entry list" where
  "heappop pq = (let smallest = Min (set pq) in (smallest, remove1 smallest pq))"

function bit_length :: "int \<Rightarrow> int" where
  "bit_length x = (if x \<le> 0 then 0 else 1 + bit_length (x div 2))"
  by pat_completeness auto
termination
  by (relation "measure nat") auto

declare bit_length.simps [simp del]

definition round_to_double :: "int \<Rightarrow> int" where
  "round_to_double x =
     (let bits = bit_length x in
      if bits \<le> 53 then x
      else
        let shift = nat (bits - 53);
            q = x div 2 ^ shift;
            r = x mod 2 ^ shift;
            half = 2 ^ (shift - 1)
        in (if r > half \<or> (r = half \<and> odd q) then q + 1 else q) * 2 ^ shift)"

definition float_add :: "int \<Rightarrow> int \<Rightarrow> int" where
  "float_add x y = round_to_double (x + y)"

definition GATE_COST :: int where
  "GATE_COST = 18014398509481984"

definition JUMPBRIDGE_COST :: int where
  "JUMPBRIDGE_COST = 5404319552844595"

fun push_neighbours ::
  "(int \<rightharpoonup> int) \<Rightarrow> int \<Rightarrow> int list \<Rightarrow> int list \<Rightarrow> pq_entry list \<Rightarrow> pq_entry list" where
  "push_neighbours visited new_cost path [] pq = pq"
| "push_neighbours visited new_cost path (next_id # rest) pq =
     push_neighbours visited new_cost path rest
       (if (case visited next_id of None \<Rightarrow> True | Some c \<Rightarrow> c > new_cost)
        then pq @ [(new_cost, next_id, path @ [next_id])] else pq)"

definition entry_weight :: "int \<Rightarrow> pq_entry \<Rightarrow> nat" where
  "entry_weight max_jumps e = nat (max_jumps * 2 + 1 - int (length (snd (snd e))))"

definition explore ::
  "sde_loader \<Rightarrow> bool \<Rightarrow> (int \<rightharpoonup> int) \<Rightarrow> int \<Rightarrow> int \<Rightarrow> int list \<Rightarrow> pq_entry list
     \<Rightarrow> pq_entry list" where
  "explore self use_jumpbridges visited cost current_id path pq =
     (let pq = (case system_jumps self current_id of
                  Some nexts \<Rightarrow> push_neighbours visited (float_add cost GATE_COST) path nexts pq
                | None \<Rightarrow> pq);
          pq = (if use_jumpbridges
                then (case jumpbridges self current_id of
                        Some nexts \<Rightarrow> push_neighbours visited (float_add cost JUMPBRIDGE_COST) path nexts pq
                      | None \<Rightarrow> pq)
                else pq)
      in pq)"

lemma heappop_mset':
  "pq \<noteq> [] \<Longrightarrow> mset pq = add_mset (fst (heappop pq)) (mset (snd (heappop pq)))"
  by (simp add: heappop_def Let_def)

definition pushed :: "(int \<rightharpoonup> int) \<Rightarrow> int \<Rightarrow> int list \<Rightarrow> int list \<Rightarrow> pq_entry list" where
  "pushed visited c path nexts =
     map (\<lambda>n. (c, n, path @ [n]))
       (filter (\<lambda>n. case visited n of None \<Rightarrow> True | Some c' \<Rightarrow> c' > c) nexts)"

definition gate_edges :: "sde_loader \<Rightarrow> int \<Rightarrow> int list" where
  "gate_edges self u = (case system_jumps self u of Some nexts \<Rightarrow> nexts | None \<Rightarrow> [])"

definition jb_edges :: "sde_loader \<Rightarrow> bool \<Rightarrow> int \<Rightarrow> int list" where
  "jb_edges self use_jumpbridges u =
     (if use_jumpbridges then (case jumpbridges self u of Some nexts \<Rightarrow> nexts | None \<Rightarrow> [])
      else [])"

lemma push_neighbours_eq:
  "push_neighbours visited c path nexts pq = pq @ pushed visited c path nexts"
  by (induction nexts arbitrary: pq) (simp_all add: pushed_def)

lemma explore_eq:
  "explore self ujb visited cost u path pq =
     pq @ pushed visited (float_add cost GATE_COST) path (gate_edges self u)
        @ pushed visited (float_add cost JUMPBRIDGE_COST) path (jb_edges self ujb u)"
proof -
  have e: "pushed visited c path [] = []" for c
    by (simp add: pushed_def)
  show ?thesis
    by (cases "system_jumps self u"; cases "jumpbridges self u")
       (simp_all add: explore_def push_neighbours_eq gate_edges_def jb_edges_def e)
qed

lemma pushed_weight:
  "e \<in> set (pushed visited c path nexts) \<Longrightarrow> \<not> int (length path) > mj * 2 \<Longrightarrow>
   entry_weight mj e < entry_weight mj (c0, u, path)"
  by (auto simp: pushed_def entry_weight_def)

lemma pop_decreases:
  "(M, add_mset x M) \<in> mult {(a, b). a < (b::nat)}"
  using one_step_implies_mult [of "{#x#}" "{#}" "{(a, b). a < b}" M] by simp

lemma expand_decreases:
  assumes "\<forall>k \<in># K. k < (x::nat)"
  shows "(M + K, add_mset x M) \<in> mult {(a, b). a < b}"
  using one_step_implies_mult [of "{#x#}" K "{(a, b). a < b}" M] assms by simp

lemma pop_step:
  assumes "pq \<noteq> []"
  shows "(image_mset w (mset (snd (heappop pq))), image_mset w (mset pq))
           \<in> mult {(a, b). a < (b::nat)}"
proof -
  have "image_mset w (mset pq)
          = add_mset (w (fst (heappop pq))) (image_mset w (mset (snd (heappop pq))))"
    by (subst heappop_mset' [OF assms]) simp
  then show ?thesis
    by (simp add: pop_decreases)
qed

lemma explore_step:
  assumes "pq \<noteq> []" and "\<not> mj * 2 < int (length (snd (snd (fst (heappop pq)))))"
  shows "(image_mset (entry_weight mj)
            (mset (explore self ujb v c u (snd (snd (fst (heappop pq)))) (snd (heappop pq)))),
          image_mset (entry_weight mj) (mset pq)) \<in> mult {(a, b). a < b}"
proof -
  let ?path = "snd (snd (fst (heappop pq)))"
  let ?K = "pushed v (float_add c GATE_COST) ?path (gate_edges self u)
            @ pushed v (float_add c JUMPBRIDGE_COST) ?path (jb_edges self ujb u)"
  have e: "fst (heappop pq) = (fst (fst (heappop pq)), fst (snd (fst (heappop pq))), ?path)"
    by simp
  have "\<forall>k \<in> set ?K. entry_weight mj k < entry_weight mj (fst (heappop pq))"
    using pushed_weight [OF _ assms(2), of _ v _ _ "fst (fst (heappop pq))"
        "fst (snd (fst (heappop pq)))"]
    by (subst e) auto
  then have small: "\<forall>k \<in># image_mset (entry_weight mj) (mset ?K).
      k < entry_weight mj (fst (heappop pq))"
    by auto
  have 1: "image_mset (entry_weight mj) (mset pq)
          = add_mset (entry_weight mj (fst (heappop pq)))
              (image_mset (entry_weight mj) (mset (snd (heappop pq))))"
    by (subst heappop_mset' [OF assms(1)]) simp
  have 2: "image_mset (entry_weight mj) (mset (explore self ujb v c u ?path (snd (heappop pq))))
          = image_mset (entry_weight mj) (mset (snd (heappop pq)))
            + image_mset (entry_weight mj) (mset ?K)"
    by (simp add: explore_eq)
  show ?thesis
    unfolding 1 2 by (rule expand_decreases [OF small])
qed

function dijkstra ::
  "sde_loader \<Rightarrow> int \<Rightarrow> int \<Rightarrow> bool \<Rightarrow> pq_entry list \<Rightarrow> (int \<rightharpoonup> int) \<Rightarrow> int list option" where
  "dijkstra self end_id max_jumps use_jumpbridges pq visited =
     (if pq = [] then None
      else
        let popped = heappop pq;
            cost = fst (fst popped);
            current_id = fst (snd (fst popped));
            path = snd (snd (fst popped));
            pq = snd popped
        in
        if (case visited current_id of Some c \<Rightarrow> c \<le> cost | None \<Rightarrow> False)
        then dijkstra self end_id max_jumps use_jumpbridges pq visited
        else
          let visited = visited(current_id \<mapsto> cost) in
          if current_id = end_id then Some path
          else if int (length path) > max_jumps * 2
          then dijkstra self end_id max_jumps use_jumpbridges pq visited
          else dijkstra self end_id max_jumps use_jumpbridges
                 (explore self use_jumpbridges visited cost current_id path pq) visited)"
  by pat_completeness auto

termination
  apply (relation "inv_image (mult {(a, b). a < (b::nat)})
    (\<lambda>(self, end_id, max_jumps, use_jumpbridges, pq, visited).
       mset (map (entry_weight max_jumps) pq))")
     apply (simp add: wf_mult wf_less)
    apply (simp add: pop_step)
   apply (simp add: pop_step)
  apply (clarsimp simp: explore_step)
  done


declare dijkstra.simps [simp del]

subsection \<open>Input validation (security_utils.py, lines 47-60 and 179-196)\<close>

text \<open>
  A character is its code point below 256.  \<open>is_space\<close> is the whitespace of
  \<^verbatim>\<open>\s\<close> and of \<^verbatim>\<open>str.strip()\<close> in that range.
\<close>

definition is_space :: "char \<Rightarrow> bool" where
  "is_space c = (let n = (of_char c :: nat) in
     (9 \<le> n \<and> n \<le> 13) \<or> (28 \<le> n \<and> n \<le> 32) \<or> n = 133 \<or> n = 160)"

definition name_char :: "char \<Rightarrow> bool" where
  "name_char c = (let n = (of_char c :: nat) in
     (65 \<le> n \<and> n \<le> 90) \<or> (97 \<le> n \<and> n \<le> 122) \<or> (48 \<le> n \<and> n \<le> 57)
     \<or> is_space c \<or> n = 45)"

definition strip :: "string \<Rightarrow> string" where
  "strip s = rev (dropWhile is_space (rev (dropWhile is_space s)))"

definition MAX_SYSTEM_NAME_LENGTH :: nat where
  "MAX_SYSTEM_NAME_LENGTH = 100"

definition validate_system_name :: "string \<Rightarrow> string option" where
  "validate_system_name system_name =
     (if system_name = [] \<or> length system_name > MAX_SYSTEM_NAME_LENGTH then None
      else if \<not> list_all name_char system_name then None
      else Some (strip system_name))"

definition validate_integer :: "int \<Rightarrow> int option \<Rightarrow> int option \<Rightarrow> int option" where
  "validate_integer int_val min_val max_val =
     (if (case min_val of Some m \<Rightarrow> int_val < m | None \<Rightarrow> False) then None
      else if (case max_val of Some m \<Rightarrow> int_val > m | None \<Rightarrow> False) then None
      else Some int_val)"

fun names_of :: "sde_loader \<Rightarrow> int list \<Rightarrow> error + string list" where
  "names_of self [] = Inr []"
| "names_of self (sid # path) =
     (case system_id_to_name self sid of
        None \<Rightarrow> Inl KeyError
      | Some name \<Rightarrow> (case names_of self path of Inl e \<Rightarrow> Inl e | Inr names \<Rightarrow> Inr (name # names)))"

definition find_path :: "sde_loader \<Rightarrow> string \<Rightarrow> string \<Rightarrow> int \<Rightarrow> bool \<Rightarrow> error + string list option" where
  "find_path self start_system end_system max_jumps use_jumpbridges =
     (let start_system = validate_system_name start_system;
          end_system = validate_system_name end_system;
          max_jumps = validate_integer max_jumps (Some 1) (Some 100)
      in
      if start_system = None \<or> start_system = Some [] \<or> end_system = None \<or> end_system = Some []
         \<or> max_jumps = None \<or> max_jumps = Some 0
      then Inr None
      else
        let start_id = system_name_to_id self (the start_system);
            end_id = system_name_to_id self (the end_system)
        in
        if start_id = None \<or> start_id = Some 0 \<or> end_id = None \<or> end_id = Some 0 then Inr None
        else if start_id = end_id then Inr (Some [the start_system])
        else
          (case dijkstra self (the end_id) (the max_jumps) use_jumpbridges
                  [(0, the start_id, [the start_id])] Map.empty of
             None \<Rightarrow> Inr None
           | Some path \<Rightarrow> (case names_of self path of Inl e \<Rightarrow> Inl e | Inr names \<Rightarrow> Inr (Some names))))"

subsection \<open>Walks in the static graph\<close>

text \<open>
  The notions the claims about find_path are stated with; none of them is program code.
  An edge is a gate edge or, when jumpbridges are used, a jumpbridge edge; a walk is a
  non-empty list of system ids joined by edges.  \<open>walk_cost\<close> adds the edge costs along
  a walk in the order and with the float addition of the loop, a jumpbridge edge at 0.3
  and any other edge at 1.0.  \<open>resolves\<close> says that a name passes validation, is not
  empty and has a non-zero id, which is what find_path requires before it searches.
  \<open>finds_cheapest\<close> is the claim on find_path: whenever the two names resolve,
  max_jumps is in its range 1..100 and some walk of at most 2 x max_jumps edges joins
  the two systems, find_path returns the names of such a walk which costs no more.
  \<open>gate_only\<close> says that no jumpbridge edge is in play, \<open>all_named\<close> that the two
  name dictionaries agree and every edge leads to a named system.  \<open>sound_entry\<close>,
  \<open>gcost\<close>, \<open>bfs_inv\<close> and \<open>gate_only_result\<close> are the invariants of the loop
  used in the proofs.
\<close>

definition edge :: "sde_loader \<Rightarrow> bool \<Rightarrow> int \<Rightarrow> int \<Rightarrow> bool" where
  "edge self use_jumpbridges u v =
     (v \<in> set (gate_edges self u) \<or> v \<in> set (jb_edges self use_jumpbridges u))"

fun is_walk :: "sde_loader \<Rightarrow> bool \<Rightarrow> int list \<Rightarrow> bool" where
  "is_walk self use_jumpbridges [] = False"
| "is_walk self use_jumpbridges [u] = True"
| "is_walk self use_jumpbridges (u # v # rest) =
     (edge self use_jumpbridges u v \<and> is_walk self use_jumpbridges (v # rest))"

definition walk_from_to :: "sde_loader \<Rightarrow> bool \<Rightarrow> int \<Rightarrow> int \<Rightarrow> int list \<Rightarrow> bool" where
  "walk_from_to self use_jumpbridges s t p =
     (is_walk self use_jumpbridges p \<and> hd p = s \<and> last p = t)"

definition sound_entry :: "sde_loader \<Rightarrow> bool \<Rightarrow> int \<Rightarrow> int \<Rightarrow> pq_entry \<Rightarrow> bool" where
  "sound_entry self ujb s max_jumps e =
     (walk_from_to self ujb s (fst (snd e)) (snd (snd e)) \<and>
      int (length (snd (snd e))) \<le> max_jumps * 2 + 1)"

definition gate_only :: "sde_loader \<Rightarrow> bool \<Rightarrow> bool" where
  "gate_only self use_jumpbridges = (\<forall>u. jb_edges self use_jumpbridges u = [])"

definition gcost :: "int list \<Rightarrow> int" where
  "gcost p = (int (length p) - 1) * GATE_COST"

definition bfs_inv ::
  "sde_loader \<Rightarrow> bool \<Rightarrow> int \<Rightarrow> int \<Rightarrow> pq_entry list \<Rightarrow> (int \<rightharpoonup> int) \<Rightarrow> bool" where
  "bfs_inv self ujb s mj pq visited =
     ((\<forall>e \<in> set pq. sound_entry self ujb s mj e \<and> fst e = gcost (snd (snd e))) \<and>
      (\<forall>u c q. visited u = Some c \<longrightarrow> walk_from_to self ujb s u q \<longrightarrow> c \<le> gcost q) \<and>
      (\<forall>u c e. visited u = Some c \<longrightarrow> e \<in> set pq \<longrightarrow> c \<le> fst e) \<and>
      (\<forall>u c v. visited u = Some c \<longrightarrow> c < mj * 2 * GATE_COST \<longrightarrow> v \<in> set (gate_edges self u) \<longrightarrow>
         (\<exists>c'. visited v = Some c' \<and> c' \<le> c + GATE_COST) \<or>
         (\<exists>e \<in> set pq. fst (snd e) = v \<and> fst e \<le> c + GATE_COST)) \<and>
      ((\<exists>c. visited s = Some c) \<or> (\<exists>e \<in> set pq. fst (snd e) = s \<and> fst e \<le> 0)))"

definition gate_only_result :: "sde_loader \<Rightarrow> bool \<Rightarrow> int \<Rightarrow> int \<Rightarrow> int \<Rightarrow> int list option \<Rightarrow> bool" where
  "gate_only_result self ujb s t mj r =
     (case r of
        None \<Rightarrow> (\<forall>q. walk_from_to self ujb s t q \<longrightarrow> gcost q > mj * 2 * GATE_COST)
      | Some p \<Rightarrow> walk_from_to self ujb s t p \<and> int (length p) \<le> mj * 2 + 1 \<and>
                  (\<forall>q. walk_from_to self ujb s t q \<longrightarrow> gcost p \<le> gcost q))"

definition edge_cost :: "sde_loader \<Rightarrow> bool \<Rightarrow> int \<Rightarrow> int \<Rightarrow> int" where
  "edge_cost self use_jumpbridges u v =
     (if v \<in> set (jb_edges self use_jumpbridges u) then JUMPBRIDGE_COST else GATE_COST)"

fun walk_cost_from :: "sde_loader \<Rightarrow> bool \<Rightarrow> int \<Rightarrow> int list \<Rightarrow> int" where
  "walk_cost_from self use_jumpbridges c (u # v # rest) =
     walk_cost_from self use_jumpbridges (float_add c (edge_cost self use_jumpbridges u v)) (v # rest)"
| "walk_cost_from self use_jumpbridges c p = c"

definition walk_cost :: "sde_loader \<Rightarrow> bool \<Rightarrow> int list \<Rightarrow> int" where
  "walk_cost self use_jumpbridges p = walk_cost_from self use_jumpbridges 0 p"

definition resolves :: "sde_loader \<Rightarrow> string \<Rightarrow> int \<Rightarrow> bool" where
  "resolves self name sid =
     (\<exists>n. validate_system_name name = Some n \<and> n \<noteq> [] \<and>
          system_name_to_id self n = Some sid \<and> sid \<noteq> 0)"

definition all_named :: "sde_loader \<Rightarrow> bool \<Rightarrow> bool" where
  "all_named self use_jumpbridges =
     ((\<forall>n i. system_name_to_id self n = Some i \<longrightarrow> system_id_to_name self i = Some n) \<and>
      (\<forall>u v. edge self use_jumpbridges u v \<longrightarrow> system_id_to_name self v \<noteq> None))"

definition finds_cheapest :: "sde_loader \<Rightarrow> string \<Rightarrow> string \<Rightarrow> int \<Rightarrow> bool \<Rightarrow> bool" where
  "finds_cheapest self a b mj ujb =
     (\<forall>sid tid q.
        resolves self a sid \<and> resolves self b tid \<and> 1 \<le> mj \<and> mj \<le> 100 \<and>
        walk_from_to self ujb sid tid q \<and> int (length q) - 1 \<le> 2 * mj \<longrightarrow>
        (\<exists>p names.
           find_path self a b mj ujb = Inr (Some names) \<and> names_of self p = Inr names \<and>
           walk_from_to self ujb sid tid p \<and> int (length p) - 1 \<le> 2 * mj \<and>
           walk_cost self ujb p \<le> walk_cost self ujb q))"

section \<open>The hybrid route composer\<close>

text \<open>
  find_hybrid_routes (drifter_tracker.py, lines 2527-2662).  A hop and a route are the
  dictionaries the program appends; the field \<open>r_origin\<close> is the key 'origin', and so on.
  Each Python loop is one recursive function over the list it iterates, with the list
  \<open>routes\<close> passed along; a KeyError raised by find_path ends the whole computation.
  \<open>falsy p\<close> is Python's \<^verbatim>\<open>not p\<close> for a path that is None or empty.
\<close>

record hop =
  h_entry_system :: string
  h_exit_system :: string
  h_wormhole :: scan

record route =
  r_origin :: string
  r_destination :: string
  r_entry_path :: "string list"
  r_hops :: "hop list"
  r_exit_path :: "string list"
  r_entry_gates :: int
  r_exit_gates :: int
  r_total_gates :: int
  r_wormhole_count :: nat
  r_score :: int

definition falsy :: "string list option \<Rightarrow> bool" where
  "falsy p = (p = None \<or> p = Some [])"

fun single_hop_exits ::
  "sde_loader \<Rightarrow> string \<Rightarrow> string \<Rightarrow> int \<Rightarrow> string \<Rightarrow> string list \<Rightarrow> int
     \<Rightarrow> (string \<times> scan) list \<Rightarrow> route list \<Rightarrow> error + route list" where
  "single_hop_exits self origin destination max_gates_per_leg entry_system entry_path entry_gates
     [] routes = Inr routes"
| "single_hop_exits self origin destination max_gates_per_leg entry_system entry_path entry_gates
     ((exit_system, wh_data) # rest) routes =
     (case find_path self exit_system destination max_gates_per_leg True of
        Inl e \<Rightarrow> Inl e
      | Inr exit_path \<Rightarrow>
          if falsy exit_path
          then single_hop_exits self origin destination max_gates_per_leg entry_system entry_path
                 entry_gates rest routes
          else
            let exit_gates = int (length (the exit_path)) - 1;
                total_gates = entry_gates + exit_gates;
                score = calculate_route_score_single entry_gates exit_gates wh_data
            in single_hop_exits self origin destination max_gates_per_leg entry_system entry_path
                 entry_gates rest
                 (routes @
                  [\<lparr>r_origin = origin, r_destination = destination, r_entry_path = entry_path,
                    r_hops = [\<lparr>h_entry_system = entry_system, h_exit_system = exit_system,
                             h_wormhole = wh_data\<rparr>],
                    r_exit_path = the exit_path, r_entry_gates = entry_gates,
                    r_exit_gates = exit_gates, r_total_gates = total_gates, r_wormhole_count = 1,
                    r_score = score\<rparr>]))"

fun single_hop_entries ::
  "sde_loader \<Rightarrow> string \<Rightarrow> string \<Rightarrow> connections \<Rightarrow> int \<Rightarrow> string list \<Rightarrow> route list
     \<Rightarrow> error + route list" where
  "single_hop_entries self origin destination connections max_gates_per_leg [] routes = Inr routes"
| "single_hop_entries self origin destination connections max_gates_per_leg
     (entry_system # rest) routes =
     (case find_path self origin entry_system max_gates_per_leg True of
        Inl e \<Rightarrow> Inl e
      | Inr entry_path \<Rightarrow>
          if falsy entry_path
          then single_hop_entries self origin destination connections max_gates_per_leg rest routes
          else
            let entry_gates = int (length (the entry_path)) - 1 in
            (case single_hop_exits self origin destination max_gates_per_leg entry_system
                    (the entry_path) entry_gates (conn_get connections entry_system) routes of
               Inl e \<Rightarrow> Inl e
             | Inr routes \<Rightarrow>
                 single_hop_entries self origin destination connections max_gates_per_leg rest
                   routes))"

fun multi_hop_exits ::
  "sde_loader \<Rightarrow> string \<Rightarrow> string \<Rightarrow> int \<Rightarrow> string \<Rightarrow> string list \<Rightarrow> int \<Rightarrow> string \<Rightarrow> scan
     \<Rightarrow> (string \<times> scan) list \<Rightarrow> route list \<Rightarrow> error + route list" where
  "multi_hop_exits self origin destination max_gates_per_leg entry_system entry_path entry_gates
     mid_system wh_data_1 [] routes = Inr routes"
| "multi_hop_exits self origin destination max_gates_per_leg entry_system entry_path entry_gates
     mid_system wh_data_1 ((exit_system, wh_data_2) # rest) routes =
     (if exit_system = entry_system
      then multi_hop_exits self origin destination max_gates_per_leg entry_system entry_path
             entry_gates mid_system wh_data_1 rest routes
      else if holeType wh_data_1 = holeType wh_data_2
      then multi_hop_exits self origin destination max_gates_per_leg entry_system entry_path
             entry_gates mid_system wh_data_1 rest routes
      else
        (case find_path self exit_system destination max_gates_per_leg True of
           Inl e \<Rightarrow> Inl e
         | Inr exit_path \<Rightarrow>
             if falsy exit_path
             then multi_hop_exits self origin destination max_gates_per_leg entry_system entry_path
                    entry_gates mid_system wh_data_1 rest routes
             else
               let exit_gates = int (length (the exit_path)) - 1;
                   total_gates = entry_gates + exit_gates
               in
               (case find_path self mid_system destination max_gates_per_leg True of
                  Inl e \<Rightarrow> Inl e
                | Inr direct_route_1 \<Rightarrow>
                    let direct_route_1_gates =
                          entry_gates + (if falsy direct_route_1 then 999
                                         else int (length (the direct_route_1)) - 1)
                    in
                    if total_gates > direct_route_1_gates + 10
                    then multi_hop_exits self origin destination max_gates_per_leg entry_system
                           entry_path entry_gates mid_system wh_data_1 rest routes
                    else
                      let score = calculate_route_score_multihop entry_gates exit_gates
                                    wh_data_1 wh_data_2
                      in multi_hop_exits self origin destination max_gates_per_leg entry_system
                           entry_path entry_gates mid_system wh_data_1 rest
                           (routes @
                            [\<lparr>r_origin = origin, r_destination = destination,
                              r_entry_path = entry_path,
                              r_hops = [\<lparr>h_entry_system = entry_system, h_exit_system = mid_system,
                                       h_wormhole = wh_data_1\<rparr>,
                                      \<lparr>h_entry_system = mid_system, h_exit_system = exit_system,
                                       h_wormhole = wh_data_2\<rparr>],
                              r_exit_path = the exit_path, r_entry_gates = entry_gates,
                              r_exit_gates = exit_gates, r_total_gates = total_gates,
                              r_wormhole_count = 2, r_score = score\<rparr>]))))"

fun multi_hop_mids ::
  "sde_loader \<Rightarrow> string \<Rightarrow> string \<Rightarrow> connections \<Rightarrow> int \<Rightarrow> string \<Rightarrow> string list \<Rightarrow> int
     \<Rightarrow> (string \<times> scan) list \<Rightarrow> route list \<Rightarrow> error + route list" where
  "multi_hop_mids self origin destination connections max_gates_per_leg entry_system entry_path
     entry_gates [] routes = Inr routes"
| "multi_hop_mids self origin destination connections max_gates_per_leg entry_system entry_path
     entry_gates ((mid_system, wh_data_1) # rest) routes =
     (if mid_system \<notin> set (map fst connections)
      then multi_hop_mids self origin destination connections max_gates_per_leg entry_system
             entry_path entry_gates rest routes
      else
        (case find_path self mid_system mid_system 0 True of
           Inl e \<Rightarrow> Inl e
         | Inr mid_path \<Rightarrow>
             (case multi_hop_exits self origin destination max_gates_per_leg entry_system
                     entry_path entry_gates mid_system wh_data_1
                     (conn_get connections mid_system) routes of
                Inl e \<Rightarrow> Inl e
              | Inr routes \<Rightarrow>
                  multi_hop_mids self origin destination connections max_gates_per_leg
                    entry_system entry_path entry_gates rest routes)))"

fun multi_hop_entries ::
  "sde_loader \<Rightarrow> string \<Rightarrow> string \<Rightarrow> connections \<Rightarrow> int \<Rightarrow> string list \<Rightarrow> route list
     \<Rightarrow> error + route list" where
  "multi_hop_entries self origin destination connections max_gates_per_leg [] routes = Inr routes"
| "multi_hop_entries self origin destination connections max_gates_per_leg
     (entry_system # rest) routes =
     (case find_path self origin entry_system max_gates_per_leg True of
        Inl e \<Rightarrow> Inl e
      | Inr entry_path \<Rightarrow>
          if falsy entry_path
          then multi_hop_entries self origin destination connections max_gates_per_leg rest routes
          else
            let entry_gates = int (length (the entry_path)) - 1 in
            (case multi_hop_mids self origin destination connections max_gates_per_leg
                    entry_system (the entry_path) entry_gates
                    (conn_get connections entry_system) routes of
               Inl e \<Rightarrow> Inl e
             | Inr routes \<Rightarrow>
                 multi_hop_entries self origin destination connections max_gates_per_leg rest
                   routes))"

definition find_hybrid_routes ::
  "sde_loader \<Rightarrow> string \<Rightarrow> string \<Rightarrow> connections \<Rightarrow> int \<Rightarrow> error + route list" where
  "find_hybrid_routes self origin destination connections max_gates_per_leg =
     (let routes = [];
          wormhole_systems = map fst connections;
          allow_multihop = True
      in
      case single_hop_entries self origin destination connections max_gates_per_leg
             wormhole_systems routes of
        Inl e \<Rightarrow> Inl e
      | Inr routes \<Rightarrow>
          (case (if allow_multihop
                 then multi_hop_entries self origin destination connections max_gates_per_leg
                        wormhole_systems routes
                 else Inr routes) of
             Inl e \<Rightarrow> Inl e
           | Inr routes \<Rightarrow> Inr (sort_key r_score routes)))"

text \<open>
  The property of an emitted candidate that the loops keep: the hop list is as long as
  \<open>wormhole_count\<close> says, and a candidate with two hops passed both guards of the
  innermost loop.
\<close>

definition two_hop_ok :: "route \<Rightarrow> bool" where
  "two_hop_ok r =
     (length (r_hops r) = r_wormhole_count r \<and>
      (r_wormhole_count r = 1 \<or> r_wormhole_count r = 2) \<and>
      (r_wormhole_count r = 2 \<longrightarrow>
         holeType (h_wormhole (r_hops r ! 0)) \<noteq> holeType (h_wormhole (r_hops r ! 1)) \<and>
         h_exit_system (r_hops r ! 1) \<noteq> h_entry_system (r_hops r ! 0) \<and>
         h_exit_system (r_hops r ! 0) = h_entry_system (r_hops r ! 1)))"

subsection \<open>Example scans\<close>

definition ex_scan :: "string \<Rightarrow> string \<Rightarrow> string \<Rightarrow> string \<Rightarrow> datetime option \<Rightarrow> scan" where
  "ex_scan sys ht ls ms t =
     \<lparr>scan_id = 1, region = ''Scalding Pass'', system = sys, holeType = ht, lifeStatus = ls,
      massStatus = ms, roleId = '''', rawInfo = '''', scannedAt = t\<rparr>"

definition scanX :: scan where "scanX = ex_scan ''X'' ''Barbican'' ''Fresh'' ''100% > 50%'' (Some 0)"
definition scanC :: scan where
  "scanC = ex_scan ''X'' ''Barbican'' ''Critical'' ''< 10%'' (Some 13600000000)"

definition scanY :: scan where "scanY = ex_scan ''Y'' ''Barbican'' ''Critical'' ''< 10%'' (Some 0)"
definition scanZ :: scan where "scanZ = ex_scan ''Z'' ''Barbican'' ''Fresh'' ''50% > 10%'' None"
definition scanN :: scan where "scanN = ex_scan ''W'' ''None'' ''N/A'' ''N/A'' (Some 0)"
definition scanV :: scan where "scanV = ex_scan ''V'' ''Vidette'' ''Fresh'' ''100% > 50%'' (Some 0)"

definition scanA1 :: scan where
  "scanA1 = ex_scan ''A'' ''Barbican'' ''Fresh'' ''100% > 50%'' (Some 0)"

definition scanA2 :: scan where
  "scanA2 = (ex_scan ''A'' ''Barbican'' ''Destabilizing'' ''50% > 10%'' (Some 0))\<lparr>scan_id := 2\<rparr>"

definition scanJ2 :: scan where
  "scanJ2 = ex_scan ''J2'' ''Vidette'' ''Fresh'' ''100% > 50%'' (Some 0)"

definition scanA3 :: scan where
  "scanA3 = ex_scan ''A'' ''Vidette'' ''Fresh'' ''100% > 50%'' (Some 0)"

definition scanX2 :: scan where
  "scanX2 = ex_scan ''X'' ''Barbican'' ''Fresh'' ''100% > 50%'' (Some 0)"

definition ex_names :: "(string \<times> int) list" where
  "ex_names = [(''S'', 1), (''X'', 2), (''A'', 3), (''D'', 4), (''J1'', 11), (''J2'', 12),
               (''J3'', 13), (''J4'', 14), (''J5'', 15)]"

definition ex_sde :: sde_loader where
  "ex_sde = \<lparr>system_name_to_id = map_of ex_names,
            system_id_to_name = map_of (map (\<lambda>(n, i). (i, n)) ex_names),
            system_jumps = map_of [(1, [2]), (2, [1, 3]), (3, [2, 4]), (4, [3])],
            jumpbridges = map_of [(1, [11]), (11, [1, 12]), (12, [11, 13]), (13, [12, 14]),
                                  (14, [13, 15]), (15, [14, 3]), (3, [15])]\<rparr>"

definition ex_connections :: connections where
  "ex_connections = build_connection_graph 10 [scanX2, scanA1, scanA3, scanJ2]"

section \<open>Properties of the expiry filter\<close>

lemma timedelta_hours_24: "timedelta_hours 24 = 86400000000"
  by (simp add: timedelta_hours_def)

lemma timedelta_hours_4: "timedelta_hours 4 = 14400000000"
  by (simp add: timedelta_hours_def)

lemma timedelta_hours_quarter: "timedelta_hours (1/4) = 900000000"
  by (simp add: timedelta_hours_def)

lemma timedelta_minutes_15: "timedelta_minutes 15 = 900000000"
  by (simp add: timedelta_minutes_def)

lemma timedelta_seconds_1: "timedelta_seconds 1 = 1000000"
  by (simp add: timedelta_seconds_def)

lemmas timedelta_values =
  timedelta_hours_24 timedelta_hours_4 timedelta_hours_quarter timedelta_minutes_15
  timedelta_seconds_1

lemma lifetime_Fresh: "dict_get LIFETIME_HOURS ''Fresh'' 24 = 24"
  by (simp add: dict_get_def LIFETIME_HOURS_def)

lemma lifetime_Destabilizing: "dict_get LIFETIME_HOURS ''Destabilizing'' 24 = 4"
  by (simp add: dict_get_def LIFETIME_HOURS_def)

lemma lifetime_Critical: "dict_get LIFETIME_HOURS ''Critical'' 24 = 1/4"
  by (simp add: dict_get_def LIFETIME_HOURS_def)

lemma lifetime_other:
  "ls \<noteq> ''Fresh'' \<Longrightarrow> ls \<noteq> ''Destabilizing'' \<Longrightarrow> ls \<noteq> ''Critical'' \<Longrightarrow>
   dict_get LIFETIME_HOURS ls 24 = 24"
  by (simp add: dict_get_def LIFETIME_HOURS_def)

lemma active_wormholes_filter:
  "active_wormholes now scans = filter (\<lambda>s. holeType s \<noteq> ''None'' \<and> \<not> expired now s) scans"
  by (induction scans) simp_all

lemma active_wormholes_set:
  "s \<in> set (active_wormholes now scans) \<longleftrightarrow>
   s \<in> set scans \<and> holeType s \<noteq> ''None'' \<and> \<not> expired now s"
  by (auto simp: active_wormholes_filter)

text \<open>
  Claim C4.  A holed scan whose timestamp parses is kept by the builder iff
  \<open>now - spawnTimestamp \<le> lifetime(lifeStatus)\<close>, where the lifetime is 24h for Fresh,
  4h for Destabilizing and 0.25h for Critical.  A Fresh scan with timestamp \<open>t\<close> is still
  kept at \<open>t + 24h\<close> and is dropped at \<open>t + 24h + 1s\<close>.
\<close>

theorem active_iff_within_lifetime:
  assumes "holeType s \<noteq> ''None''" and "scannedAt s = Some t" and "s \<in> set scans"
  shows "(s \<in> set (active_wormholes now scans) \<longleftrightarrow>
            now - t \<le> timedelta_hours (dict_get LIFETIME_HOURS (lifeStatus s) 24)) \<and>
         timedelta_hours (dict_get LIFETIME_HOURS ''Fresh'' 24) = timedelta_hours 24 \<and>
         timedelta_hours (dict_get LIFETIME_HOURS ''Destabilizing'' 24) = timedelta_hours 4 \<and>
         timedelta_hours (dict_get LIFETIME_HOURS ''Critical'' 24) = timedelta_minutes 15 \<and>
         (lifeStatus s = ''Fresh'' \<longrightarrow>
            s \<in> set (active_wormholes t scans) \<and>
            s \<in> set (active_wormholes (t + timedelta_hours 24) scans) \<and>
            s \<notin> set (active_wormholes (t + timedelta_hours 24 + timedelta_seconds 1) scans))"
  using assms
  by (auto simp: active_wormholes_set expired_def lifetime_Fresh lifetime_Destabilizing
      lifetime_Critical timedelta_values)

theorem active_iff_within_lifetime_witness:
  "ex_scan ''X'' ''Barbican'' ''Fresh'' ''100% > 50%'' (Some 5)
     \<in> set (active_wormholes (5 + timedelta_hours 24)
              [ex_scan ''X'' ''Barbican'' ''Fresh'' ''100% > 50%'' (Some 5)]) \<and>
   ex_scan ''X'' ''Barbican'' ''Fresh'' ''100% > 50%'' (Some 5)
     \<notin> set (active_wormholes (5 + timedelta_hours 24 + timedelta_seconds 1)
              [ex_scan ''X'' ''Barbican'' ''Fresh'' ''100% > 50%'' (Some 5)])"
proof -
  let ?s = "ex_scan ''X'' ''Barbican'' ''Fresh'' ''100% > 50%'' (Some 5)"
  have a: "holeType ?s \<noteq> ''None''" and b: "scannedAt ?s = Some 5" and c: "?s \<in> set [?s]"
    and d: "lifeStatus ?s = ''Fresh''"
    by (simp_all add: ex_scan_def)
  show ?thesis
    using active_iff_within_lifetime [OF a b c, of 0] d by blast
qed

text \<open>
  Claim C10.  A life status outside Fresh, Destabilizing and Critical (such as N/A) gets
  the default lifetime of 24 hours in the expiry check, and the spawn-time estimate leaves
  the scan time unchanged; for liveness such a scan is treated as a Fresh one.
\<close>

theorem unknown_life_status_like_fresh:
  assumes "lifeStatus s \<noteq> ''Fresh''" and "lifeStatus s \<noteq> ''Destabilizing''"
    and "lifeStatus s \<noteq> ''Critical''"
  shows "dict_get LIFETIME_HOURS (lifeStatus s) 24 = 24 \<and>
         timedelta_hours (dict_get LIFETIME_HOURS (lifeStatus s) 24) = timedelta_hours 24 \<and>
         calculate_spawn_time now0 (lifeStatus s) (Some T) = T \<and>
         calculate_spawn_time now0 (lifeStatus s) scan_time
           = calculate_spawn_time now0 ''Fresh'' scan_time \<and>
         expired now s = expired now (s\<lparr>lifeStatus := ''Fresh''\<rparr>) \<and>
         (s \<in> set (active_wormholes now scans) \<longleftrightarrow>
            s \<in> set scans \<and> holeType s \<noteq> ''None'' \<and>
            \<not> expired now (s\<lparr>lifeStatus := ''Fresh''\<rparr>))"
proof -
  have l: "dict_get LIFETIME_HOURS (lifeStatus s) 24 = 24"
    using assms by (rule lifetime_other)
  have e: "expired now s = expired now (s\<lparr>lifeStatus := ''Fresh''\<rparr>)"
    by (simp add: expired_def l lifetime_Fresh split: option.split)
  have c: "calculate_spawn_time now0 (lifeStatus s) st = calculate_spawn_time now0 ''Fresh'' st"
    for st
    using assms by (simp add: calculate_spawn_time_def)
  have t: "calculate_spawn_time now0 ''Fresh'' (Some T) = T"
    by (simp add: calculate_spawn_time_def)
  show ?thesis
    using l e c t by (simp add: active_wormholes_set)
qed

theorem unknown_life_status_like_fresh_witness:
  "dict_get LIFETIME_HOURS ''N/A'' 24 = 24 \<and>
   calculate_spawn_time 0 ''N/A'' (Some 77) = 77 \<and>
   \<not> expired (5 + timedelta_hours 24) (ex_scan ''X'' ''Barbican'' ''N/A'' ''N/A'' (Some 5)) \<and>
   expired (6 + timedelta_hours 24) (ex_scan ''X'' ''Barbican'' ''N/A'' ''N/A'' (Some 5))"
proof -
  let ?s = "ex_scan ''X'' ''Barbican'' ''N/A'' ''N/A'' (Some 5)"
  have n: "lifeStatus ?s = ''N/A''"
    by (simp add: ex_scan_def)
  have a: "lifeStatus ?s \<noteq> ''Fresh''" and b: "lifeStatus ?s \<noteq> ''Destabilizing''"
    and c: "lifeStatus ?s \<noteq> ''Critical''"
    by (simp_all add: ex_scan_def)
  have f1: "\<not> expired (5 + timedelta_hours 24) (?s\<lparr>lifeStatus := ''Fresh''\<rparr>)"
    by (simp add: expired_def ex_scan_def lifetime_Fresh)
  have f2: "expired (6 + timedelta_hours 24) (?s\<lparr>lifeStatus := ''Fresh''\<rparr>)"
    by (simp add: expired_def ex_scan_def lifetime_Fresh)
  show ?thesis
    using unknown_life_status_like_fresh [OF a b c, of 0 77 "Some 77" "5 + timedelta_hours 24" "[]"]
      unknown_life_status_like_fresh [OF a b c, of 0 77 "Some 77" "6 + timedelta_hours 24" "[]"]
      f1 f2 n
    by simp
qed

section \<open>Properties of the connection graph\<close>

lemma conn_append_keys: "map fst (conn_append conns k e) = map fst conns"
  by (induction conns) (auto simp: conn_append_def)

lemma conn_append_key_set: "fst ` set (conn_append conns k e) = fst ` set conns"
  using conn_append_keys [of conns k e] by (metis set_map)

lemma map_of_conn_append:
  "map_of (conn_append conns k e) k' =
     (if k' = k then map_option (\<lambda>v. v @ [e]) (map_of conns k) else map_of conns k')"
  by (induction conns) (auto simp: conn_append_def)

lemma conn_get_append:
  "conn_get (conn_append conns k e) k' =
     (if k' = k \<and> k \<in> fst ` set conns then conn_get conns k @ [e] else conn_get conns k')"
proof (cases "map_of conns k")
  case None
  then have "k \<notin> fst ` set conns"
    by (simp add: map_of_eq_None_iff)
  with None show ?thesis
    by (simp add: conn_get_def map_of_conn_append)
next
  case (Some v)
  then have "k \<in> fst ` set conns"
    by (metis map_of_eq_None_iff option.distinct(1))
  with Some show ?thesis
    by (simp add: conn_get_def map_of_conn_append)
qed

lemma conn_setdefault_key_set:
  "fst ` set (conn_setdefault conns k) = insert k (fst ` set conns)"
  by (auto simp: conn_setdefault_def)

lemma conn_get_setdefault: "conn_get (conn_setdefault conns k) k' = conn_get conns k'"
  by (auto simp: conn_setdefault_def conn_get_def split: option.splits if_splits)

lemma edges_from_Nil: "edges_from i a [] = []"
  by (simp add: edges_from_def)

lemma edges_from_Cons:
  "edges_from i a ((j, other) # rest) =
     (if i \<noteq> j \<and> holeType a = holeType other then [(system other, other)] else [])
     @ edges_from i a rest"
  by (simp add: edges_from_def)

lemma conn_get_Nil: "conn_get [] k = []"
  by (simp add: conn_get_def)

lemma inner_loop_keys: "map fst (inner_loop i a js conns) = map fst conns"
  by (induction i a js conns rule: inner_loop.induct) (simp_all add: conn_append_keys)

lemma inner_loop_key_set: "fst ` set (inner_loop i a js conns) = fst ` set conns"
  using inner_loop_keys [of i a js conns] by (metis set_map)

lemma conn_get_inner_loop:
  "system a \<in> fst ` set conns \<Longrightarrow>
   conn_get (inner_loop i a js conns) k =
     conn_get conns k @ (if k = system a then edges_from i a js else [])"
  by (induction i a js conns rule: inner_loop.induct)
     (auto simp: conn_append_key_set conn_get_append edges_from_Nil edges_from_Cons)

lemma outer_loop_key_set:
  "fst ` set (outer_loop act items conns) = fst ` set conns \<union> system ` snd ` set items"
  by (induction act items conns rule: outer_loop.induct)
     (auto simp: inner_loop_key_set conn_setdefault_key_set)

lemma conn_get_outer_loop:
  "conn_get (outer_loop act items conns) k =
     conn_get conns k @
     concat (map (\<lambda>(i, a). edges_from i a (enumerate 0 act)) (filter (\<lambda>(i, a). system a = k) items))"
  by (induction act items conns rule: outer_loop.induct)
     (simp_all add: conn_get_inner_loop conn_setdefault_key_set conn_get_setdefault)

lemma conn_get_build:
  "conn_get (build_connection_graph now scans) k =
     concat (map (\<lambda>(i, a). edges_from i a (enumerate 0 (active_wormholes now scans)))
       (filter (\<lambda>(i, a). system a = k) (enumerate 0 (active_wormholes now scans))))"
  by (simp add: build_connection_graph_def Let_def conn_get_outer_loop conn_get_Nil)

lemma snd_set_enumerate: "snd ` set (enumerate n xs) = set xs"
  by (metis map_snd_enumerate set_map)

lemma keys_build:
  "fst ` set (build_connection_graph now scans) = system ` set (active_wormholes now scans)"
  by (simp add: build_connection_graph_def Let_def outer_loop_key_set snd_set_enumerate)

lemma edge_build_iff:
  "(b, w) \<in> set (conn_get (build_connection_graph now scans) a) \<longleftrightarrow>
   (\<exists>i j. i < length (active_wormholes now scans) \<and> j < length (active_wormholes now scans) \<and>
      i \<noteq> j \<and> system (active_wormholes now scans ! i) = a \<and>
      active_wormholes now scans ! j = w \<and> system w = b \<and>
      holeType (active_wormholes now scans ! i) = holeType w)"
proof
  assume "(b, w) \<in> set (conn_get (build_connection_graph now scans) a)"
  then obtain i j x where "i < length (active_wormholes now scans)"
    "j < length (active_wormholes now scans)" "i \<noteq> j"
    "x = active_wormholes now scans ! i" "system x = a"
    "w = active_wormholes now scans ! j" "system w = b" "holeType x = holeType w"
    by (auto simp: conn_get_build edges_from_def in_set_enumerate_eq)
  then show "\<exists>i j. i < length (active_wormholes now scans) \<and>
      j < length (active_wormholes now scans) \<and>
      i \<noteq> j \<and> system (active_wormholes now scans ! i) = a \<and>
      active_wormholes now scans ! j = w \<and> system w = b \<and>
      holeType (active_wormholes now scans ! i) = holeType w"
    by blast
next
  assume "\<exists>i j. i < length (active_wormholes now scans) \<and>
      j < length (active_wormholes now scans) \<and>
      i \<noteq> j \<and> system (active_wormholes now scans ! i) = a \<and>
      active_wormholes now scans ! j = w \<and> system w = b \<and>
      holeType (active_wormholes now scans ! i) = holeType w"
  then obtain i j where ij: "i < length (active_wormholes now scans)"
    "j < length (active_wormholes now scans)" "i \<noteq> j"
    "system (active_wormholes now scans ! i) = a"
    "active_wormholes now scans ! j = w" "system w = b"
    "holeType (active_wormholes now scans ! i) = holeType w"
    by blast
  have 1: "(i, active_wormholes now scans ! i) \<in> set (enumerate 0 (active_wormholes now scans))"
    and 2: "(j, w) \<in> set (enumerate 0 (active_wormholes now scans))"
    using ij by (simp_all add: in_set_enumerate_eq)
  have "(b, w) \<in> set (edges_from i (active_wormholes now scans ! i)
                          (enumerate 0 (active_wormholes now scans)))"
    unfolding edges_from_def using 2 ij by force
  then show "(b, w) \<in> set (conn_get (build_connection_graph now scans) a)"
    unfolding conn_get_build using 1 ij by force
qed


lemma length_filter_enumerate:
  "length (filter P (enumerate 0 xs)) = card {j. j < length xs \<and> P (j, xs ! j)}"
proof -
  have "{i. i < length (enumerate 0 xs) \<and> P (enumerate 0 xs ! i)} = {j. j < length xs \<and> P (j, xs ! j)}"
    by (auto simp: nth_enumerate_eq)
  then show ?thesis
    by (simp add: length_filter_conv_card)
qed

lemma sum_list_filter_enumerate:
  "sum_list (map g (filter Q (enumerate 0 xs))) = (\<Sum>i | i < length xs \<and> Q (i, xs ! i). g (i, xs ! i))"
proof -
  have d: "distinct (filter Q (enumerate 0 xs))"
    by (simp add: distinct_enumerate)
  have s: "set (filter Q (enumerate 0 xs)) = (\<lambda>i. (i, xs ! i)) ` {i. i < length xs \<and> Q (i, xs ! i)}"
    by (auto simp: in_set_enumerate_eq)
  have "sum_list (map g (filter Q (enumerate 0 xs))) = sum g (set (filter Q (enumerate 0 xs)))"
    using d by (simp add: sum_list_distinct_conv_sum_set)
  also have "\<dots> = sum g ((\<lambda>i. (i, xs ! i)) ` {i. i < length xs \<and> Q (i, xs ! i)})"
    by (simp only: s)
  also have "\<dots> = (\<Sum>i | i < length xs \<and> Q (i, xs ! i). g (i, xs ! i))"
    by (subst sum.reindex) (auto simp: inj_on_def)
  finally show ?thesis .
qed

lemma length_conn_get_build:
  "length (conn_get (build_connection_graph now scans) a) =
   card {(i, j). i < length (active_wormholes now scans) \<and> j < length (active_wormholes now scans) \<and>
           i \<noteq> j \<and> system (active_wormholes now scans ! i) = a \<and>
           holeType (active_wormholes now scans ! i) = holeType (active_wormholes now scans ! j)}"
proof -
  let ?act = "active_wormholes now scans"
  let ?A = "{i. i < length ?act \<and> system (?act ! i) = a}"
  let ?B = "\<lambda>i. {j. j < length ?act \<and> i \<noteq> j \<and> holeType (?act ! i) = holeType (?act ! j)}"
  have "length (conn_get (build_connection_graph now scans) a) =
        sum_list (map (\<lambda>(i, x). length (edges_from i x (enumerate 0 ?act)))
           (filter (\<lambda>(i, x). system x = a) (enumerate 0 ?act)))"
    by (simp add: conn_get_build length_concat comp_def case_prod_unfold)
  also have "\<dots> = (\<Sum>i\<in>?A. length (edges_from i (?act ! i) (enumerate 0 ?act)))"
    by (simp add: sum_list_filter_enumerate)
  also have "\<dots> = (\<Sum>i\<in>?A. card (?B i))"
    by (simp add: edges_from_def length_filter_enumerate)
  also have "\<dots> = card (SIGMA i:?A. ?B i)"
    by (simp add: card_SigmaI)
  also have "(SIGMA i:?A. ?B i) = {(i, j). i < length ?act \<and> j < length ?act \<and>
           i \<noteq> j \<and> system (?act ! i) = a \<and> holeType (?act ! i) = holeType (?act ! j)}"
    by auto
  finally show ?thesis .
qed

lemma three_scans:
  assumes "holeType x = holeType y" "holeType y = holeType z"
    "distinct [system x, system y, system z]"
  shows "outer_loop [x, y, z] (enumerate 0 [x, y, z]) [] =
         [(system x, [(system y, y), (system z, z)]),
          (system y, [(system x, x), (system z, z)]),
          (system z, [(system x, x), (system y, y)])]"
  using assms
  by (auto simp: enumerate_eq_zip upt_rec conn_setdefault_def conn_append_def)


lemma active_example:
  "active_wormholes 10 [scanX, scanN, scanY, scanZ] = [scanX, scanY, scanZ]"
  by (simp add: scanX_def scanY_def scanZ_def scanN_def ex_scan_def expired_def
      lifetime_Fresh lifetime_Critical timedelta_values)

text \<open>
  Claim C2.  With \<open>act\<close> the surviving scans (holed and not expired): for every two
  distinct positions of \<open>act\<close> with equal hole type the graph has an edge in each
  direction; every edge of the graph comes from two distinct positions with equal hole
  type, and the number of edges out of a system is the number of such ordered pairs, so
  no scan is paired with itself and no two scans of different type are joined; three
  surviving scans of one type in three distinct systems give exactly six directed edges.
\<close>

theorem same_type_clique:
  "(\<forall>i j. i < length (active_wormholes now scans) \<and> j < length (active_wormholes now scans) \<and>
      i \<noteq> j \<and> holeType (active_wormholes now scans ! i) = holeType (active_wormholes now scans ! j)
      \<longrightarrow> (system (active_wormholes now scans ! j), active_wormholes now scans ! j)
             \<in> set (conn_get (build_connection_graph now scans)
                      (system (active_wormholes now scans ! i))) \<and>
          (system (active_wormholes now scans ! i), active_wormholes now scans ! i)
             \<in> set (conn_get (build_connection_graph now scans)
                      (system (active_wormholes now scans ! j)))) \<and>
   (\<forall>a b w. (b, w) \<in> set (conn_get (build_connection_graph now scans) a) \<longrightarrow>
      (\<exists>i j. i < length (active_wormholes now scans) \<and> j < length (active_wormholes now scans) \<and>
         i \<noteq> j \<and> system (active_wormholes now scans ! i) = a \<and>
         active_wormholes now scans ! j = w \<and> system w = b \<and>
         holeType (active_wormholes now scans ! i) = holeType w)) \<and>
   (\<forall>a. length (conn_get (build_connection_graph now scans) a) =
      card {(i, j). i < length (active_wormholes now scans) \<and>
              j < length (active_wormholes now scans) \<and> i \<noteq> j \<and>
              system (active_wormholes now scans ! i) = a \<and>
              holeType (active_wormholes now scans ! i) = holeType (active_wormholes now scans ! j)}) \<and>
   (\<forall>x y z. active_wormholes now scans = [x, y, z] \<and> holeType x = holeType y \<and>
      holeType y = holeType z \<and> distinct [system x, system y, system z] \<longrightarrow>
      build_connection_graph now scans =
        [(system x, [(system y, y), (system z, z)]),
         (system y, [(system x, x), (system z, z)]),
         (system z, [(system x, x), (system y, y)])] \<and>
      sum_list (map (\<lambda>(k, es). length es) (build_connection_graph now scans)) = 6)"
proof (intro conjI allI impI)
  fix i j
  assume "i < length (active_wormholes now scans) \<and> j < length (active_wormholes now scans) \<and>
      i \<noteq> j \<and> holeType (active_wormholes now scans ! i) = holeType (active_wormholes now scans ! j)"
  then have ij: "i < length (active_wormholes now scans)" "j < length (active_wormholes now scans)"
    "i \<noteq> j" "holeType (active_wormholes now scans ! i) = holeType (active_wormholes now scans ! j)"
    by simp_all
  show "(system (active_wormholes now scans ! j), active_wormholes now scans ! j)
             \<in> set (conn_get (build_connection_graph now scans)
                      (system (active_wormholes now scans ! i)))"
    by (rule edge_build_iff [THEN iffD2], rule exI [of _ i], rule exI [of _ j]) (simp add: ij)
  show "(system (active_wormholes now scans ! i), active_wormholes now scans ! i)
             \<in> set (conn_get (build_connection_graph now scans)
                      (system (active_wormholes now scans ! j)))"
    by (rule edge_build_iff [THEN iffD2], rule exI [of _ j], rule exI [of _ i])
       (simp add: ij not_sym [OF ij(3)])
next
  fix a b w
  assume "(b, w) \<in> set (conn_get (build_connection_graph now scans) a)"
  then show "\<exists>i j. i < length (active_wormholes now scans) \<and> j < length (active_wormholes now scans) \<and>
         i \<noteq> j \<and> system (active_wormholes now scans ! i) = a \<and>
         active_wormholes now scans ! j = w \<and> system w = b \<and>
         holeType (active_wormholes now scans ! i) = holeType w"
    by (simp only: edge_build_iff)
next
  fix a
  show "length (conn_get (build_connection_graph now scans) a) =
      card {(i, j). i < length (active_wormholes now scans) \<and>
              j < length (active_wormholes now scans) \<and> i \<noteq> j \<and>
              system (active_wormholes now scans ! i) = a \<and>
              holeType (active_wormholes now scans ! i) = holeType (active_wormholes now scans ! j)}"
    by (rule length_conn_get_build)
next
  fix x y z
  assume h: "active_wormholes now scans = [x, y, z] \<and> holeType x = holeType y \<and>
      holeType y = holeType z \<and> distinct [system x, system y, system z]"
  then show g: "build_connection_graph now scans =
        [(system x, [(system y, y), (system z, z)]),
         (system y, [(system x, x), (system z, z)]),
         (system z, [(system x, x), (system y, y)])]"
    by (simp only: build_connection_graph_def Let_def three_scans)
  show "sum_list (map (\<lambda>(k, es). length es) (build_connection_graph now scans)) = 6"
    by (simp add: g)
qed

theorem same_type_clique_witness:
  "build_connection_graph 10 [scanX, scanN, scanY, scanZ] =
     [(''X'', [(''Y'', scanY), (''Z'', scanZ)]),
      (''Y'', [(''X'', scanX), (''Z'', scanZ)]),
      (''Z'', [(''X'', scanX), (''Y'', scanY)])] \<and>
   sum_list (map (\<lambda>(k, es). length es) (build_connection_graph 10 [scanX, scanN, scanY, scanZ])) = 6"
proof -
  have t: "holeType scanX = holeType scanY \<and> holeType scanY = holeType scanZ \<and>
      distinct [system scanX, system scanY, system scanZ]"
    by (simp add: scanX_def scanY_def scanZ_def ex_scan_def)
  have h: "active_wormholes 10 [scanX, scanN, scanY, scanZ] = [scanX, scanY, scanZ] \<and>
      holeType scanX = holeType scanY \<and> holeType scanY = holeType scanZ \<and>
      distinct [system scanX, system scanY, system scanZ]"
    by (rule conjI [OF active_example t])
  have s: "system scanX = ''X''" "system scanY = ''Y''" "system scanZ = ''Z''"
    by (simp_all add: scanX_def scanY_def scanZ_def ex_scan_def)
  note c = same_type_clique [of 10 "[scanX, scanN, scanY, scanZ]", THEN conjunct2,
      THEN conjunct2, THEN conjunct2, THEN spec, THEN spec, THEN spec, THEN mp, OF h]
  show ?thesis
    using c s by simp
qed

lemma active_wormholes_drop_None:
  "active_wormholes now (filter (\<lambda>x. holeType x \<noteq> ''None'') scans) = active_wormholes now scans"
  by (simp add: active_wormholes_filter conj_commute cong: conj_cong)

lemma edge_between_active:
  assumes "s \<in> set (active_wormholes now scans)" and "t \<in> set (active_wormholes now scans)"
    and "t \<noteq> s" and "holeType t = holeType s"
  shows "(system s, s) \<in> set (conn_get (build_connection_graph now scans) (system t))"
proof -
  obtain i where i: "i < length (active_wormholes now scans)" "active_wormholes now scans ! i = t"
    using assms(2) by (auto simp: in_set_conv_nth)
  obtain j where j: "j < length (active_wormholes now scans)" "active_wormholes now scans ! j = s"
    using assms(1) by (auto simp: in_set_conv_nth)
  have "i \<noteq> j"
    using i j assms(3) by auto
  then show ?thesis
    by (intro edge_build_iff [THEN iffD2] exI [of _ i] exI [of _ j]) (simp add: i j assms)
qed

text \<open>
  Claim C8.  A scan whose hole type is the string None is not kept and is the data of no
  edge; the graph is the one built from the list without such scans.  A holed scan whose
  timestamp does not parse is kept: its system is a key of the graph and it is joined in
  both directions to every other surviving scan of its type.
\<close>

theorem none_scans_dropped_unparsed_kept:
  "(holeType s = ''None'' \<longrightarrow>
      s \<notin> set (active_wormholes now scans) \<and>
      (\<forall>a b. (b, s) \<notin> set (conn_get (build_connection_graph now scans) a))) \<and>
   build_connection_graph now scans =
     build_connection_graph now (filter (\<lambda>x. holeType x \<noteq> ''None'') scans) \<and>
   (s \<in> set scans \<and> holeType s \<noteq> ''None'' \<and> scannedAt s = None \<longrightarrow>
      s \<in> set (active_wormholes now scans) \<and>
      system s \<in> fst ` set (build_connection_graph now scans) \<and>
      (\<forall>t. t \<in> set (active_wormholes now scans) \<and> t \<noteq> s \<and> holeType t = holeType s \<longrightarrow>
         (system s, s) \<in> set (conn_get (build_connection_graph now scans) (system t)) \<and>
         (system t, t) \<in> set (conn_get (build_connection_graph now scans) (system s))))"
proof (intro conjI impI allI)
  assume n: "holeType s = ''None''"
  then show a: "s \<notin> set (active_wormholes now scans)"
    by (simp add: active_wormholes_set)
  fix a b
  show "(b, s) \<notin> set (conn_get (build_connection_graph now scans) a)"
  proof
    assume "(b, s) \<in> set (conn_get (build_connection_graph now scans) a)"
    then obtain j where "j < length (active_wormholes now scans)"
      "active_wormholes now scans ! j = s"
      unfolding edge_build_iff by blast
    then have "s \<in> set (active_wormholes now scans)"
      by (metis nth_mem)
    with a show False ..
  qed
next
  show "build_connection_graph now scans =
     build_connection_graph now (filter (\<lambda>x. holeType x \<noteq> ''None'') scans)"
    by (simp add: build_connection_graph_def active_wormholes_drop_None)
next
  assume h: "s \<in> set scans \<and> holeType s \<noteq> ''None'' \<and> scannedAt s = None"
  then show act: "s \<in> set (active_wormholes now scans)"
    by (simp add: active_wormholes_set expired_def)
  then show "system s \<in> fst ` set (build_connection_graph now scans)"
    by (simp add: keys_build)
  fix t
  assume t: "t \<in> set (active_wormholes now scans) \<and> t \<noteq> s \<and> holeType t = holeType s"
  show "(system s, s) \<in> set (conn_get (build_connection_graph now scans) (system t))"
    using act t by (simp add: edge_between_active)
  show "(system t, t) \<in> set (conn_get (build_connection_graph now scans) (system s))"
    by (rule edge_between_active) (use act t in auto)
qed

theorem none_scans_dropped_unparsed_kept_witness:
  "scanN \<notin> set (active_wormholes 10 [scanX, scanN, scanY, scanZ]) \<and>
   scanZ \<in> set (active_wormholes 10 [scanX, scanN, scanY, scanZ]) \<and>
   (system scanZ, scanZ) \<in> set (conn_get (build_connection_graph 10 [scanX, scanN, scanY, scanZ]) (system scanX))"
proof -
  let ?scans = "[scanX, scanN, scanY, scanZ]"
  have n: "holeType scanN = ''None''"
    by (simp add: scanN_def ex_scan_def)
  have z: "scanZ \<in> set ?scans \<and> holeType scanZ \<noteq> ''None'' \<and> scannedAt scanZ = None"
    by (simp add: scanZ_def ex_scan_def)
  have x: "scanX \<in> set (active_wormholes 10 ?scans) \<and> scanX \<noteq> scanZ \<and> holeType scanX = holeType scanZ"
    by (simp only: active_example) (simp add: scanX_def scanZ_def ex_scan_def)
  note a = none_scans_dropped_unparsed_kept [of scanN 10 ?scans, THEN conjunct1, THEN mp, OF n]
  note b = none_scans_dropped_unparsed_kept [of scanZ 10 ?scans, THEN conjunct2, THEN conjunct2,
      THEN mp, OF z]
  note c = b [THEN conjunct2, THEN conjunct2, THEN spec, THEN mp, OF x]
  show ?thesis
    using a b c by blast
qed

lemma dropped_scan_in_no_edge:
  assumes "s \<notin> set (active_wormholes now scans)"
  shows "(b, s) \<notin> set (conn_get (build_connection_graph now scans) a)"
proof
  assume "(b, s) \<in> set (conn_get (build_connection_graph now scans) a)"
  then obtain j where "j < length (active_wormholes now scans)"
    "active_wormholes now scans ! j = s"
    unfolding edge_build_iff by blast
  then have "s \<in> set (active_wormholes now scans)"
    by (metis nth_mem)
  with assms show False ..
qed

text \<open>
  Claim C3.  The claim wants a Critical scan made at time \<open>T\<close> to stay usable for up to
  15 minutes from the scan moment, so that routing never under-estimates the life of the
  hole.  The program stores the timestamp \<open>T - 24h\<close> and the builder counts the
  15 minutes of \<^verbatim>\<open>LIFETIME_HOURS\<close> from that stored timestamp: the scan is kept
  exactly while \<open>now \<le> T - 24h + 15min\<close>.  From the scan moment on (\<open>T \<le> now\<close>) it
  is not among the surviving scans and is the data of no edge of the graph, so the hole
  is never routed through.
\<close>

theorem critical_scan_dropped_at_scan_moment:
  assumes "lifeStatus s = ''Critical''" and "holeType s \<noteq> ''None''" and "s \<in> set scans"
    and "scannedAt s = Some (calculate_spawn_time now0 (lifeStatus s) (Some T))"
  shows "scannedAt s = Some (T - timedelta_hours 24) \<and>
         (s \<in> set (active_wormholes now scans)
            \<longleftrightarrow> now \<le> T - timedelta_hours 24 + timedelta_minutes 15) \<and>
         (T \<le> now \<longrightarrow>
            s \<notin> set (active_wormholes now scans) \<and>
            (\<forall>a b. (b, s) \<notin> set (conn_get (build_connection_graph now scans) a)))"
proof -
  have st: "scannedAt s = Some (T - timedelta_hours 24)"
    using assms(1,4) by (simp add: calculate_spawn_time_def)
  have act: "s \<in> set (active_wormholes now scans)
      \<longleftrightarrow> now \<le> T - timedelta_hours 24 + timedelta_minutes 15"
    using assms(1,2,3) st
    by (auto simp: active_wormholes_set expired_def lifetime_Critical timedelta_values)
  have gone: "s \<notin> set (active_wormholes now scans)" if "T \<le> now"
    using act that by (simp add: timedelta_values)
  show ?thesis
    using st act gone dropped_scan_in_no_edge by blast
qed

theorem critical_scan_dropped_at_scan_moment_witness:
  "scannedAt scanC = Some (100000000000 - timedelta_hours 24) \<and>
   scanC \<notin> set (active_wormholes 100000000000 [scanX, scanC]) \<and>
   (''X'', scanC) \<notin> set (conn_get (build_connection_graph 100000000000 [scanX, scanC]) ''X'')"
proof -
  have a: "lifeStatus scanC = ''Critical''" and b: "holeType scanC \<noteq> ''None''"
    and c: "scanC \<in> set [scanX, scanC]"
    by (simp_all add: scanC_def ex_scan_def)
  have d: "scannedAt scanC = Some (calculate_spawn_time 0 (lifeStatus scanC) (Some 100000000000))"
    by (simp add: scanC_def ex_scan_def calculate_spawn_time_def timedelta_values)
  show ?thesis
    using critical_scan_dropped_at_scan_moment [OF a b c d, of 100000000000] by blast
qed

section \<open>Properties of the scores\<close>

lemma py_in_self: "py_in xs xs"
  by (cases xs) simp_all

lemma plain_mass_values:
  "plain_mass ''100% > 50%''" "plain_mass ''50% > 10%''" "plain_mass ''< 10%''" "plain_mass ''N/A''"
  by (simp_all add: plain_mass_def)

lemma plain_mass_in:
  assumes "plain_mass m"
  shows "py_in ''< 10%'' m \<longleftrightarrow> m = ''< 10%''"
    and "py_in ''50% > 10%'' m \<longleftrightarrow> m = ''50% > 10%''"
    and "py_in ''100% > 50%'' m \<longleftrightarrow> m = ''100% > 50%''"
  using assms py_in_self [of "''< 10%''"] py_in_self [of "''50% > 10%''"]
    py_in_self [of "''100% > 50%''"]
  unfolding plain_mass_def by auto

lemma single_score_formula:
  "plain_mass (massStatus wh) \<Longrightarrow>
   calculate_route_score_single entry_gates exit_gates wh
     = spec_single_hop_score (entry_gates + exit_gates) (lifeStatus wh) (massStatus wh)"
  by (simp add: calculate_route_score_single_def spec_single_hop_score_def plain_mass_in Let_def)

lemma multihop_hole_penalty_formula:
  "plain_mass (massStatus wh) \<Longrightarrow>
   multihop_hole_penalty score wh = score + spec_per_hole_penalty (lifeStatus wh) (massStatus wh)"
  by (simp add: multihop_hole_penalty_def spec_per_hole_penalty_def plain_mass_in Let_def)

lemma multihop_score_formula:
  "plain_mass (massStatus wh1) \<Longrightarrow> plain_mass (massStatus wh2) \<Longrightarrow>
   calculate_route_score_multihop entry_gates exit_gates wh1 wh2
     = spec_two_hop_score (entry_gates + exit_gates) (lifeStatus wh1) (massStatus wh1)
         (lifeStatus wh2) (massStatus wh2)"
  by (simp add: calculate_route_score_multihop_def spec_two_hop_score_def
      multihop_hole_penalty_formula plain_mass_in Let_def)

text \<open>
  Claim C7.  On a plain mass status the computed single-hop score is
  totalGates + (60 Critical, 25 Destabilizing) + (50 for "< 10%", 20 for "50% > 10%")
  + (10 if totalGates > 15) - (5 if totalGates < 10, Fresh and "100% > 50%"), and the
  two-hop score is totalGates + 30 + the penalties of both holes (50 / 20 for life,
  45 / 18 for mass) - 5 when both holes are Fresh at "100% > 50%".
\<close>

theorem score_matches_formula:
  "(plain_mass (massStatus wh) \<longrightarrow>
      calculate_route_score_single entry_gates exit_gates wh
        = spec_single_hop_score (entry_gates + exit_gates) (lifeStatus wh) (massStatus wh)) \<and>
   (plain_mass (massStatus wh1) \<and> plain_mass (massStatus wh2) \<longrightarrow>
      calculate_route_score_multihop entry_gates exit_gates wh1 wh2
        = spec_two_hop_score (entry_gates + exit_gates) (lifeStatus wh1) (massStatus wh1)
            (lifeStatus wh2) (massStatus wh2))"
  by (simp add: single_score_formula multihop_score_formula)

theorem score_matches_formula_witness:
  "calculate_route_score_single 0 0 scanY = 110 \<and>
   calculate_route_score_multihop 3 4 scanX scanY = 132"
proof -
  have y: "plain_mass (massStatus scanY)" and x: "plain_mass (massStatus scanX)"
    by (simp_all add: scanX_def scanY_def ex_scan_def plain_mass_values)
  have f: "lifeStatus scanY = ''Critical''" "massStatus scanY = ''< 10%''"
    "lifeStatus scanX = ''Fresh''" "massStatus scanX = ''100% > 50%''"
    by (simp_all add: scanX_def scanY_def ex_scan_def)
  have 1: "calculate_route_score_single 0 0 scanY = 110"
    using score_matches_formula [of scanY 0 0 scanX scanY] y
    by (simp add: f spec_single_hop_score_def)
  have 2: "calculate_route_score_multihop 3 4 scanX scanY = 132"
    using score_matches_formula [of scanY 3 4 scanX scanY] x y
    by (simp add: f spec_two_hop_score_def spec_per_hole_penalty_def)
  show ?thesis
    using 1 2 by simp
qed

section \<open>Properties of the composer\<close>

lemma single_hop_exits_ok:
  "single_hop_exits self origin destination mg entry_system entry_path entry_gates exits routes
     = Inr routes' \<Longrightarrow>
   \<forall>r \<in> set routes. two_hop_ok r \<Longrightarrow> \<forall>r \<in> set routes'. two_hop_ok r"
proof (induction self origin destination mg entry_system entry_path entry_gates exits routes
    rule: single_hop_exits.induct)
  case 1
  then show ?case by simp
next
  case (2 self origin destination mg entry_system entry_path entry_gates exit_system wh_data rest routes)
  show ?case
  proof (cases "find_path self exit_system destination mg True")
    case (Inl e)
    with 2 show ?thesis by simp
  next
    case (Inr exit_path)
    show ?thesis
    proof (cases "falsy exit_path")
      case True
      with 2 Inr show ?thesis by simp
    next
      case False
      show ?thesis
        by (rule "2.IH"(2) [OF Inr False refl refl refl])
           (use "2.prems" Inr False in \<open>auto simp: two_hop_ok_def Let_def\<close>)
    qed
  qed
qed


lemma single_hop_entries_ok:
  "single_hop_entries self origin destination connections mg entries routes = Inr routes' \<Longrightarrow>
   \<forall>r \<in> set routes. two_hop_ok r \<Longrightarrow> \<forall>r \<in> set routes'. two_hop_ok r"
proof (induction self origin destination connections mg entries routes
    rule: single_hop_entries.induct)
  case 1
  then show ?case by simp
next
  case (2 self origin destination connections mg entry_system rest routes)
  show ?case
  proof (cases "find_path self origin entry_system mg True")
    case (Inl e)
    with "2.prems" show ?thesis by simp
  next
    case (Inr entry_path)
    show ?thesis
    proof (cases "falsy entry_path")
      case True
      show ?thesis
        by (rule "2.IH"(1) [OF Inr True _ "2.prems"(2)])
           (use "2.prems"(1) Inr True in simp)
    next
      case False
      show ?thesis
      proof (cases "single_hop_exits self origin destination mg entry_system (the entry_path)
                      (int (length (the entry_path)) - 1) (conn_get connections entry_system) routes")
        case (Inl e)
        with "2.prems" Inr False show ?thesis by (simp add: Let_def)
      next
        case inner: (Inr routes1)
        have ok1: "\<forall>r \<in> set routes1. two_hop_ok r"
          using single_hop_exits_ok [OF inner "2.prems"(2)] .
        show ?thesis
          by (rule "2.IH"(2) [OF Inr False refl inner _ ok1])
             (use "2.prems"(1) Inr False inner in \<open>simp add: Let_def\<close>)
      qed
    qed
  qed
qed


lemma multi_hop_exits_ok:
  "multi_hop_exits self origin destination mg entry_system entry_path entry_gates mid_system
     wh_data_1 exits routes = Inr routes' \<Longrightarrow>
   \<forall>r \<in> set routes. two_hop_ok r \<Longrightarrow> \<forall>r \<in> set routes'. two_hop_ok r"
proof (induction self origin destination mg entry_system entry_path entry_gates mid_system
    wh_data_1 exits routes rule: multi_hop_exits.induct)
  case 1
  then show ?case by simp
next
  case (2 self origin destination mg entry_system entry_path entry_gates mid_system wh_data_1
      exit_system wh_data_2 rest routes)
  show ?case
  proof (cases "exit_system = entry_system")
    case True
    show ?thesis
      by (rule "2.IH"(1) [OF True _ "2.prems"(2)]) (use "2.prems"(1) True in simp)
  next
    case ne: False
    show ?thesis
    proof (cases "holeType wh_data_1 = holeType wh_data_2")
      case True
      show ?thesis
        by (rule "2.IH"(2) [OF ne True _ "2.prems"(2)]) (use "2.prems"(1) ne True in simp)
    next
      case ty: False
      show ?thesis
      proof (cases "find_path self exit_system destination mg True")
        case (Inl e)
        with "2.prems"(1) ne ty show ?thesis by simp
      next
        case ex: (Inr exit_path)
        show ?thesis
        proof (cases "falsy exit_path")
          case True
          show ?thesis
            by (rule "2.IH"(3) [OF ne ty ex True _ "2.prems"(2)])
               (use "2.prems"(1) ne ty ex True in simp)
        next
          case nf: False
          show ?thesis
          proof (cases "find_path self mid_system destination mg True")
            case (Inl e)
            with "2.prems"(1) ne ty ex nf show ?thesis by (simp add: Let_def)
          next
            case dr: (Inr direct_route_1)
            show ?thesis
            proof (cases "entry_gates + (int (length (the exit_path)) - 1)
                > entry_gates + (if falsy direct_route_1 then 999
                                 else int (length (the direct_route_1)) - 1) + 10")
              case True
              show ?thesis
                by (rule "2.IH"(4) [OF ne ty ex nf refl refl dr refl True _ "2.prems"(2)])
                   (use "2.prems"(1) ne ty ex nf dr True in \<open>simp add: Let_def\<close>)
            next
              case False
              have new: "\<forall>r \<in> set (routes @
                  [\<lparr>r_origin = origin, r_destination = destination, r_entry_path = entry_path,
                    r_hops = [\<lparr>h_entry_system = entry_system, h_exit_system = mid_system,
                               h_wormhole = wh_data_1\<rparr>,
                              \<lparr>h_entry_system = mid_system, h_exit_system = exit_system,
                               h_wormhole = wh_data_2\<rparr>],
                    r_exit_path = the exit_path, r_entry_gates = entry_gates,
                    r_exit_gates = int (length (the exit_path)) - 1,
                    r_total_gates = entry_gates + (int (length (the exit_path)) - 1),
                    r_wormhole_count = 2,
                    r_score = calculate_route_score_multihop entry_gates
                                (int (length (the exit_path)) - 1) wh_data_1 wh_data_2\<rparr>]).
                  two_hop_ok r"
                using "2.prems"(2) ne ty by (auto simp: two_hop_ok_def)
              show ?thesis
                by (rule "2.IH"(5) [OF ne ty ex nf refl refl dr refl False refl _ new])
                   (use "2.prems"(1) ne ty ex nf dr False in \<open>simp add: Let_def\<close>)
            qed
          qed
        qed
      qed
    qed
  qed
qed


lemma multi_hop_mids_ok:
  "multi_hop_mids self origin destination connections mg entry_system entry_path entry_gates
     mids routes = Inr routes' \<Longrightarrow>
   \<forall>r \<in> set routes. two_hop_ok r \<Longrightarrow> \<forall>r \<in> set routes'. two_hop_ok r"
proof (induction self origin destination connections mg entry_system entry_path entry_gates
    mids routes rule: multi_hop_mids.induct)
  case 1
  then show ?case by simp
next
  case (2 self origin destination connections mg entry_system entry_path entry_gates mid_system
      wh_data_1 rest routes)
  show ?case
  proof (cases "mid_system \<notin> set (map fst connections)")
    case True
    show ?thesis
      by (rule "2.IH"(1) [OF True _ "2.prems"(2)]) (use "2.prems"(1) True in simp)
  next
    case known: False
    show ?thesis
    proof (cases "find_path self mid_system mid_system 0 True")
      case (Inl e)
      with "2.prems"(1) known show ?thesis by simp
    next
      case mp: (Inr mid_path)
      show ?thesis
      proof (cases "multi_hop_exits self origin destination mg entry_system entry_path
                      entry_gates mid_system wh_data_1 (conn_get connections mid_system) routes")
        case (Inl e)
        with "2.prems"(1) known mp show ?thesis by simp
      next
        case inner: (Inr routes1)
        have ok1: "\<forall>r \<in> set routes1. two_hop_ok r"
          using multi_hop_exits_ok [OF inner "2.prems"(2)] .
        show ?thesis
          by (rule "2.IH"(2) [OF known mp inner _ ok1])
             (use "2.prems"(1) known mp inner in simp)
      qed
    qed
  qed
qed

lemma multi_hop_entries_ok:
  "multi_hop_entries self origin destination connections mg entries routes = Inr routes' \<Longrightarrow>
   \<forall>r \<in> set routes. two_hop_ok r \<Longrightarrow> \<forall>r \<in> set routes'. two_hop_ok r"
proof (induction self origin destination connections mg entries routes
    rule: multi_hop_entries.induct)
  case 1
  then show ?case by simp
next
  case (2 self origin destination connections mg entry_system rest routes)
  show ?case
  proof (cases "find_path self origin entry_system mg True")
    case (Inl e)
    with "2.prems"(1) show ?thesis by simp
  next
    case (Inr entry_path)
    show ?thesis
    proof (cases "falsy entry_path")
      case True
      show ?thesis
        by (rule "2.IH"(1) [OF Inr True _ "2.prems"(2)])
           (use "2.prems"(1) Inr True in simp)
    next
      case False
      show ?thesis
      proof (cases "multi_hop_mids self origin destination connections mg entry_system
                      (the entry_path) (int (length (the entry_path)) - 1)
                      (conn_get connections entry_system) routes")
        case (Inl e)
        with "2.prems"(1) Inr False show ?thesis by (simp add: Let_def)
      next
        case inner: (Inr routes1)
        have ok1: "\<forall>r \<in> set routes1. two_hop_ok r"
          using multi_hop_mids_ok [OF inner "2.prems"(2)] .
        show ?thesis
          by (rule "2.IH"(2) [OF Inr False refl inner _ ok1])
             (use "2.prems"(1) Inr False inner in \<open>simp add: Let_def\<close>)
      qed
    qed
  qed
qed

lemma find_hybrid_routes_ok:
  assumes "find_hybrid_routes self origin destination connections mg = Inr routes"
  shows "\<forall>r \<in> set routes. two_hop_ok r"
proof -
  obtain r1 where 1: "single_hop_entries self origin destination connections mg
      (map fst connections) [] = Inr r1"
    using assms by (auto simp: find_hybrid_routes_def Let_def split: sum.splits)
  obtain r2 where 2: "multi_hop_entries self origin destination connections mg
      (map fst connections) r1 = Inr r2"
    using assms 1 by (auto simp: find_hybrid_routes_def Let_def split: sum.splits)
  have r: "routes = sort_key r_score r2"
    using assms 1 2 by (simp add: find_hybrid_routes_def Let_def)
  have "\<forall>r \<in> set r1. two_hop_ok r"
    using single_hop_entries_ok [OF 1] by simp
  then have "\<forall>r \<in> set r2. two_hop_ok r"
    by (rule multi_hop_entries_ok [OF 2])
  then show ?thesis
    by (simp add: r)
qed

text \<open>
  Claim C6.  Whatever the origin, destination and connection graph, a candidate with two
  wormholes in the composer's result has two hops whose wormholes differ in hole type,
  and its second hop does not exit at the system where the first one entered.
\<close>

theorem two_hop_routes_differ_in_type:
  assumes "find_hybrid_routes self origin destination connections max_gates_per_leg = Inr routes"
    and "r \<in> set routes"
    and "r_wormhole_count r = 2"
  shows "length (r_hops r) = 2 \<and>
         holeType (h_wormhole (r_hops r ! 0)) \<noteq> holeType (h_wormhole (r_hops r ! 1)) \<and>
         h_exit_system (r_hops r ! 1) \<noteq> h_entry_system (r_hops r ! 0)"
  using find_hybrid_routes_ok [OF assms(1)] assms(2,3) by (auto simp: two_hop_ok_def)

lemma ex_routes_computed:
  "case find_hybrid_routes ex_sde ''S'' ''D'' ex_connections 15 of
     Inl e \<Rightarrow> False
   | Inr routes \<Rightarrow>
       length routes = 6 \<and> r_wormhole_count (routes ! 4) = 2 \<and>
       map h_entry_system (r_hops (routes ! 4)) = [''J2'', ''A''] \<and>
       map h_exit_system (r_hops (routes ! 4)) = [''A'', ''X'']"
  by code_simp


theorem two_hop_routes_differ_in_type_witness:
  "case find_hybrid_routes ex_sde ''S'' ''D'' ex_connections 15 of
     Inl e \<Rightarrow> False
   | Inr routes \<Rightarrow>
       r_wormhole_count (routes ! 4) = 2 \<and>
       holeType (h_wormhole (r_hops (routes ! 4) ! 0))
         \<noteq> holeType (h_wormhole (r_hops (routes ! 4) ! 1)) \<and>
       h_exit_system (r_hops (routes ! 4) ! 1) \<noteq> h_entry_system (r_hops (routes ! 4) ! 0)"
proof (cases "find_hybrid_routes ex_sde ''S'' ''D'' ex_connections 15")
  case (Inl e)
  with ex_routes_computed show ?thesis by simp
next
  case (Inr routes)
  with ex_routes_computed have l: "length routes = 6" and c: "r_wormhole_count (routes ! 4) = 2"
    by simp_all
  from l have m: "routes ! 4 \<in> set routes"
    by simp
  show ?thesis
    using two_hop_routes_differ_in_type [OF Inr m c] c Inr by simp
qed

text \<open>
  Claim C9.  Two distinct active scans of one hole type in the same system A: the graph
  has the key A with edges from A to A, and the composer emits a single-hop candidate
  that enters and leaves the wormhole network at A.
\<close>

theorem same_system_scans_give_self_loop:
  "scanA1 \<noteq> scanA2 \<and> system scanA1 = system scanA2 \<and> holeType scanA1 = holeType scanA2 \<and>
   active_wormholes 10 [scanA1, scanA2] = [scanA1, scanA2] \<and>
   build_connection_graph 10 [scanA1, scanA2] = [(''A'', [(''A'', scanA2), (''A'', scanA1)])] \<and>
   (case find_hybrid_routes ex_sde ''S'' ''D'' (build_connection_graph 10 [scanA1, scanA2]) 15 of
      Inl e \<Rightarrow> False
    | Inr routes \<Rightarrow>
        length routes = 2 \<and>
        r_wormhole_count (routes ! 0) = 1 \<and>
        map h_entry_system (r_hops (routes ! 0)) = [''A''] \<and>
        map h_exit_system (r_hops (routes ! 0)) = [''A''] \<and>
        map h_wormhole (r_hops (routes ! 0)) = [scanA1] \<and>
        r_entry_path (routes ! 0) = [''S'', ''J1'', ''J2'', ''J3'', ''J4'', ''J5'', ''A''] \<and>
        r_exit_path (routes ! 0) = [''A'', ''D''])"
  by code_simp

section \<open>Properties of the pathfinder\<close>

lemma is_walk_snoc:
  "p \<noteq> [] \<Longrightarrow> is_walk self ujb (p @ [v]) \<longleftrightarrow> is_walk self ujb p \<and> edge self ujb (last p) v"
  by (induction self ujb p rule: is_walk.induct) auto

lemma walk_from_to_snoc:
  "p \<noteq> [] \<Longrightarrow>
   walk_from_to self ujb s v (p @ [v]) \<longleftrightarrow> walk_from_to self ujb s (last p) p \<and> edge self ujb (last p) v"
  by (auto simp: walk_from_to_def is_walk_snoc)

lemma walk_from_to_single: "walk_from_to self ujb s t [u] \<longleftrightarrow> u = s \<and> u = t"
  by (auto simp: walk_from_to_def)

lemma walk_nonempty: "walk_from_to self ujb s t p \<Longrightarrow> p \<noteq> []"
  by (auto simp: walk_from_to_def)

lemma heappop_fst_in: "pq \<noteq> [] \<Longrightarrow> fst (heappop pq) \<in> set pq"
  by (simp add: heappop_def Let_def)

lemma heappop_fst_le: "e \<in> set pq \<Longrightarrow> fst (heappop pq) \<le> e"
  by (simp add: heappop_def Let_def)

lemma heappop_cost_le: "e \<in> set pq \<Longrightarrow> fst (fst (heappop pq)) \<le> fst e"
  using heappop_fst_le [of e pq] by (cases e; cases "fst (heappop pq)") (auto simp: less_eq_prod_def)

lemma heappop_snd_subset: "set (snd (heappop pq)) \<subseteq> set pq"
  by (simp add: heappop_def Let_def set_remove1_subset)

lemma heappop_set: "pq \<noteq> [] \<Longrightarrow> set pq = insert (fst (heappop pq)) (set (snd (heappop pq)))"
  using heappop_mset' [of pq] by (metis set_mset_add_mset_insert set_mset_mset)

lemma set_pushed:
  "set (pushed visited c path nexts) =
     {(c, n, path @ [n]) | n. n \<in> set nexts \<and> (case visited n of None \<Rightarrow> True | Some c' \<Rightarrow> c' > c)}"
  by (auto simp: pushed_def)

lemma sound_pushed:
  assumes "sound_entry self ujb s mj (c, u, p)" and "\<not> int (length p) > mj * 2"
    and "e \<in> set (pushed visited c' p nexts)" and "set nexts \<subseteq> {v. edge self ujb u v}"
  shows "sound_entry self ujb s mj e"
proof -
  obtain n where n: "e = (c', n, p @ [n])" "n \<in> set nexts"
    using assms(3) by (auto simp: set_pushed)
  have p: "p \<noteq> []" "last p = u" "walk_from_to self ujb s u p"
    using assms(1) by (auto simp: sound_entry_def walk_from_to_def)
  have "edge self ujb (last p) n"
    using n(2) assms(4) p(2) by auto
  then have "walk_from_to self ujb s n (p @ [n])"
    using p by (simp add: walk_from_to_snoc)
  then show ?thesis
    using assms(2) by (simp add: sound_entry_def n(1))
qed

lemma sound_explore:
  assumes "\<forall>e \<in> set pq. sound_entry self ujb s mj e"
    and "sound_entry self ujb s mj (c, u, p)" and "\<not> int (length p) > mj * 2"
  shows "\<forall>e \<in> set (explore self ujb visited c u p pq). sound_entry self ujb s mj e"
proof -
  have g: "set (gate_edges self u) \<subseteq> {v. edge self ujb u v}"
    and j: "set (jb_edges self ujb u) \<subseteq> {v. edge self ujb u v}"
    by (auto simp: edge_def)
  show ?thesis
    using assms(1) sound_pushed [OF assms(2,3) _ g] sound_pushed [OF assms(2,3) _ j]
    by (auto simp: explore_eq)
qed


lemma bit_length_le:
  "0 \<le> x \<Longrightarrow> x < 2 ^ n \<Longrightarrow> bit_length x \<le> int n"
proof (induction n arbitrary: x)
  case 0
  then have "x = 0" by simp
  then show ?case by (simp add: bit_length.simps)
next
  case (Suc n)
  show ?case
  proof (cases "x \<le> 0")
    case True
    then show ?thesis by (simp add: bit_length.simps)
  next
    case False
    have "x div 2 < 2 ^ n" "0 \<le> x div 2"
      using Suc.prems by auto
    then have "bit_length (x div 2) \<le> int n"
      using Suc.IH by blast
    then show ?thesis
      using False by (subst bit_length.simps) simp
  qed
qed

lemma round_to_double_exact:
  assumes "0 \<le> x" and "x < 2 ^ 107" and "2 ^ 54 dvd x"
  shows "round_to_double x = x"
proof (cases "bit_length x \<le> 53")
  case True
  then show ?thesis by (simp add: round_to_double_def)
next
  case False
  define sh where "sh = nat (bit_length x - 53)"
  have "bit_length x \<le> 107"
    using bit_length_le [OF assms(1,2)] by simp
  then have sh: "0 < sh" "sh \<le> 54"
    using False by (auto simp: sh_def)
  have "(2::int) ^ sh dvd 2 ^ 54"
    using sh(2) by (rule le_imp_power_dvd)
  then have d: "(2::int) ^ sh dvd x"
    using assms(3) by (rule dvd_trans)
  then have r: "x mod 2 ^ sh = 0"
    by simp
  have h: "(0::int) < 2 ^ (sh - 1)"
    by simp
  have "round_to_double x = x div 2 ^ sh * 2 ^ sh"
    using False r h by (simp add: round_to_double_def Let_def sh_def [symmetric])
  also have "\<dots> = x"
    using d by simp
  finally show ?thesis .
qed

lemma float_add_gate:
  assumes "0 \<le> k" and "k \<le> 1000"
  shows "float_add (k * GATE_COST) GATE_COST = (k + 1) * GATE_COST"
proof -
  have g: "GATE_COST = 2 ^ 54"
    by (simp add: GATE_COST_def)
  have "(k + 1) * 2 ^ 54 \<le> 1001 * (2 ^ 54 :: int)"
    using assms by simp
  also have "\<dots> < 2 ^ 107"
    by simp
  finally have b: "(k + 1) * 2 ^ 54 < (2 ^ 107 :: int)" .
  have "round_to_double ((k + 1) * 2 ^ 54) = (k + 1) * 2 ^ 54"
    using assms b by (intro round_to_double_exact) auto
  then show ?thesis
    by (simp add: float_add_def g algebra_simps)
qed

lemma GATE_COST_pos: "0 < GATE_COST"
  by (simp add: GATE_COST_def)

lemma gcost_snoc: "gcost (p @ [v]) = gcost p + GATE_COST"
  by (simp add: gcost_def algebra_simps)

lemma gcost_single: "gcost [v] = 0"
  by (simp add: gcost_def)

lemma gate_only_edge: "gate_only self ujb \<Longrightarrow> edge self ujb u v \<longleftrightarrow> v \<in> set (gate_edges self u)"
  by (simp add: gate_only_def edge_def)

lemma bfs_inv_entry:
  "bfs_inv self ujb s mj pq visited \<Longrightarrow> e \<in> set pq \<Longrightarrow>
   sound_entry self ujb s mj e \<and> fst e = gcost (snd (snd e))"
  by (simp add: bfs_inv_def)

lemma bfs_inv_opt:
  "bfs_inv self ujb s mj pq visited \<Longrightarrow> visited u = Some c \<Longrightarrow>
   walk_from_to self ujb s u q \<Longrightarrow> c \<le> gcost q"
  unfolding bfs_inv_def by blast

lemma bfs_inv_mono:
  "bfs_inv self ujb s mj pq visited \<Longrightarrow> visited u = Some c \<Longrightarrow> e \<in> set pq \<Longrightarrow> c \<le> fst e"
  unfolding bfs_inv_def by blast

lemma bfs_inv_relaxed:
  "bfs_inv self ujb s mj pq visited \<Longrightarrow> visited u = Some c \<Longrightarrow> c < mj * 2 * GATE_COST \<Longrightarrow>
   v \<in> set (gate_edges self u) \<Longrightarrow>
   (\<exists>c'. visited v = Some c' \<and> c' \<le> c + GATE_COST) \<or>
   (\<exists>e \<in> set pq. fst (snd e) = v \<and> fst e \<le> c + GATE_COST)"
  unfolding bfs_inv_def by blast

lemma bfs_inv_start:
  "bfs_inv self ujb s mj pq visited \<Longrightarrow>
   (\<exists>c. visited s = Some c) \<or> (\<exists>e \<in> set pq. fst (snd e) = s \<and> fst e \<le> 0)"
  unfolding bfs_inv_def by blast

lemma frontier:
  assumes inv: "bfs_inv self ujb s mj pq visited" and go: "gate_only self ujb"
  shows "walk_from_to self ujb s x q \<Longrightarrow>
         (\<exists>c. visited x = Some c) \<or> (\<exists>e \<in> set pq. fst e \<le> gcost q) \<or> gcost q > mj * 2 * GATE_COST"
proof (induction q arbitrary: x rule: rev_induct)
  case Nil
  then show ?case by (simp add: walk_from_to_def)
next
  case (snoc v xs)
  show ?case
  proof (cases "xs = []")
    case True
    then have "x = s"
      using snoc.prems by (simp add: walk_from_to_def)
    then show ?thesis
      using bfs_inv_start [OF inv] True by (auto simp: gcost_single)
  next
    case False
    have xv: "x = v"
      using snoc.prems by (simp add: walk_from_to_def)
    have w: "walk_from_to self ujb s (last xs) xs" and e: "v \<in> set (gate_edges self (last xs))"
      using snoc.prems False xv go by (simp_all add: walk_from_to_snoc gate_only_edge)
    consider (vis) c where "visited (last xs) = Some c"
      | (ent) e where "e \<in> set pq" "fst e \<le> gcost xs"
      | (far) "gcost xs > mj * 2 * GATE_COST"
      using snoc.IH [OF w] by blast
    then show ?thesis
    proof cases
      case vis
      have le: "c \<le> gcost xs"
        using bfs_inv_opt [OF inv vis w] .
      show ?thesis
      proof (cases "c < mj * 2 * GATE_COST")
        case True
        have "(\<exists>c'. visited v = Some c' \<and> c' \<le> c + GATE_COST) \<or>
            (\<exists>e \<in> set pq. fst (snd e) = v \<and> fst e \<le> c + GATE_COST)"
          using bfs_inv_relaxed [OF inv vis True e] .
        then show ?thesis
          using le xv by (fastforce simp: gcost_snoc)
      next
        case False
        then show ?thesis
          using le GATE_COST_pos by (simp add: gcost_snoc)
      qed
    next
      case ent
      then show ?thesis
        using GATE_COST_pos by (auto simp: gcost_snoc intro!: bexI [of _ e])
    next
      case far
      then show ?thesis
        using GATE_COST_pos by (simp add: gcost_snoc)
    qed
  qed
qed

lemma bfs_invI:
  assumes "\<And>e. e \<in> set pq \<Longrightarrow> sound_entry self ujb s mj e \<and> fst e = gcost (snd (snd e))"
    and "\<And>u c q. visited u = Some c \<Longrightarrow> walk_from_to self ujb s u q \<Longrightarrow> c \<le> gcost q"
    and "\<And>u c e. visited u = Some c \<Longrightarrow> e \<in> set pq \<Longrightarrow> c \<le> fst e"
    and "\<And>u c v. visited u = Some c \<Longrightarrow> c < mj * 2 * GATE_COST \<Longrightarrow> v \<in> set (gate_edges self u) \<Longrightarrow>
           (\<exists>c'. visited v = Some c' \<and> c' \<le> c + GATE_COST) \<or>
           (\<exists>e \<in> set pq. fst (snd e) = v \<and> fst e \<le> c + GATE_COST)"
    and "(\<exists>c. visited s = Some c) \<or> (\<exists>e \<in> set pq. fst (snd e) = s \<and> fst e \<le> 0)"
  shows "bfs_inv self ujb s mj pq visited"
  unfolding bfs_inv_def using assms by blast

lemma pop_skip:
  assumes inv: "bfs_inv self ujb s mj pq visited" and ne: "pq \<noteq> []"
    and vis: "visited (fst (snd (fst (heappop pq)))) = Some c'" and le: "c' \<le> fst (fst (heappop pq))"
  shows "bfs_inv self ujb s mj (snd (heappop pq)) visited"
proof (rule bfs_invI)
  let ?e = "fst (heappop pq)" and ?pq = "snd (heappop pq)"
  have sub: "set ?pq \<subseteq> set pq"
    by (rule heappop_snd_subset)
  have split: "\<And>e0. e0 \<in> set pq \<Longrightarrow> e0 = ?e \<or> e0 \<in> set ?pq"
    using heappop_set [OF ne] by auto
  show "sound_entry self ujb s mj e \<and> fst e = gcost (snd (snd e))" if "e \<in> set ?pq" for e
    using bfs_inv_entry [OF inv] that sub by blast
  show "c \<le> gcost q" if "visited u = Some c" "walk_from_to self ujb s u q" for u c q
    using bfs_inv_opt [OF inv that] .
  show "c \<le> fst e" if "visited u = Some c" "e \<in> set ?pq" for u c e
    using bfs_inv_mono [OF inv that(1)] that(2) sub by blast
  show "(\<exists>c'. visited v = Some c' \<and> c' \<le> c + GATE_COST) \<or>
        (\<exists>e \<in> set ?pq. fst (snd e) = v \<and> fst e \<le> c + GATE_COST)"
    if h: "visited u = Some c" "c < mj * 2 * GATE_COST" "v \<in> set (gate_edges self u)" for u c v
  proof -
    consider (a) c1 where "visited v = Some c1" "c1 \<le> c + GATE_COST"
      | (b) e0 where "e0 \<in> set pq" "fst (snd e0) = v" "fst e0 \<le> c + GATE_COST"
      using bfs_inv_relaxed [OF inv h] by blast
    then show ?thesis
    proof cases
      case a
      then show ?thesis by blast
    next
      case b
      show ?thesis
      proof (cases "e0 = ?e")
        case True
        then have "visited v = Some c'" "c' \<le> c + GATE_COST"
          using b vis le by auto
        then show ?thesis by blast
      next
        case False
        then have "e0 \<in> set ?pq"
          using split b(1) by blast
        then show ?thesis
          using b by blast
      qed
    qed
  qed
  show "(\<exists>c. visited s = Some c) \<or> (\<exists>e \<in> set ?pq. fst (snd e) = s \<and> fst e \<le> 0)"
  proof -
    consider (a) c1 where "visited s = Some c1"
      | (b) e0 where "e0 \<in> set pq" "fst (snd e0) = s" "fst e0 \<le> 0"
      using bfs_inv_start [OF inv] by blast
    then show ?thesis
    proof cases
      case a
      then show ?thesis by blast
    next
      case b
      show ?thesis
      proof (cases "e0 = ?e")
        case True
        then show ?thesis
          using b vis by auto
      next
        case False
        then have "e0 \<in> set ?pq"
          using split b(1) by blast
        then show ?thesis
          using b by blast
      qed
    qed
  qed
qed

lemma pop_fresh:
  assumes inv: "bfs_inv self ujb s mj pq visited" and ne: "pq \<noteq> []"
    and nv: "\<not> (case visited (fst (snd (fst (heappop pq)))) of Some c \<Rightarrow> c \<le> fst (fst (heappop pq))
                | None \<Rightarrow> False)"
  shows "visited (fst (snd (fst (heappop pq)))) = None"
proof (cases "visited (fst (snd (fst (heappop pq))))")
  case None
  then show ?thesis .
next
  case (Some c)
  have "c \<le> fst (fst (heappop pq))"
    using bfs_inv_mono [OF inv Some heappop_fst_in [OF ne]] .
  with nv Some show ?thesis by simp
qed

lemma pop_cost_bound:
  assumes inv: "bfs_inv self ujb s mj pq visited" and ne: "pq \<noteq> []"
  shows "fst (fst (heappop pq)) = gcost (snd (snd (fst (heappop pq))))"
    and "1 \<le> int (length (snd (snd (fst (heappop pq)))))"
    and "int (length (snd (snd (fst (heappop pq))))) \<le> mj * 2 + 1"
    and "sound_entry self ujb s mj (fst (heappop pq))"
proof -
  have e: "sound_entry self ujb s mj (fst (heappop pq)) \<and>
      fst (fst (heappop pq)) = gcost (snd (snd (fst (heappop pq))))"
    using bfs_inv_entry [OF inv heappop_fst_in [OF ne]] .
  then show "fst (fst (heappop pq)) = gcost (snd (snd (fst (heappop pq))))"
    and "sound_entry self ujb s mj (fst (heappop pq))"
    by simp_all
  show "int (length (snd (snd (fst (heappop pq))))) \<le> mj * 2 + 1"
    using e by (simp add: sound_entry_def)
  have "snd (snd (fst (heappop pq))) \<noteq> []"
    using e by (auto simp: sound_entry_def walk_from_to_def)
  then show "1 \<le> int (length (snd (snd (fst (heappop pq)))))"
    by (cases "snd (snd (fst (heappop pq)))") simp_all
qed

lemma pop_opt:
  assumes inv: "bfs_inv self ujb s mj pq visited" and ne: "pq \<noteq> []" and go: "gate_only self ujb"
    and fresh: "visited (fst (snd (fst (heappop pq)))) = None"
    and w: "walk_from_to self ujb s (fst (snd (fst (heappop pq)))) q"
  shows "fst (fst (heappop pq)) \<le> gcost q"
proof -
  consider (ent) e where "e \<in> set pq" "fst e \<le> gcost q"
    | (far) "gcost q > mj * 2 * GATE_COST"
    using frontier [OF inv go w] fresh by auto
  then show ?thesis
  proof cases
    case ent
    then show ?thesis
      using heappop_cost_le [OF ent(1)] by simp
  next
    case far
    have "gcost (snd (snd (fst (heappop pq)))) \<le> mj * 2 * GATE_COST"
      unfolding gcost_def using pop_cost_bound(3) [OF inv ne] GATE_COST_pos
      by (intro mult_right_mono) simp_all
    then show ?thesis
      using far pop_cost_bound(1) [OF inv ne] by simp
  qed
qed

lemma pop_visit:
  assumes inv: "bfs_inv self ujb s mj pq visited" and ne: "pq \<noteq> []" and go: "gate_only self ujb"
    and fresh: "visited (fst (snd (fst (heappop pq)))) = None"
    and sub: "set (snd (heappop pq)) \<subseteq> set pq'"
    and new: "\<And>e. e \<in> set pq' \<Longrightarrow> e \<notin> set (snd (heappop pq)) \<Longrightarrow>
                sound_entry self ujb s mj e \<and> fst e = gcost (snd (snd e)) \<and>
                fst (fst (heappop pq)) \<le> fst e"
    and relax: "\<And>v. fst (fst (heappop pq)) < mj * 2 * GATE_COST \<Longrightarrow>
                v \<in> set (gate_edges self (fst (snd (fst (heappop pq))))) \<Longrightarrow>
                (\<exists>c'. (visited(fst (snd (fst (heappop pq))) \<mapsto> fst (fst (heappop pq)))) v = Some c'
                      \<and> c' \<le> fst (fst (heappop pq)) + GATE_COST) \<or>
                (\<exists>e \<in> set pq'. fst (snd e) = v \<and> fst e \<le> fst (fst (heappop pq)) + GATE_COST)"
  shows "bfs_inv self ujb s mj pq'
           (visited(fst (snd (fst (heappop pq))) \<mapsto> fst (fst (heappop pq))))"
proof (rule bfs_invI)
  let ?e = "fst (heappop pq)" and ?pq = "snd (heappop pq)"
  let ?c = "fst ?e" and ?u = "fst (snd ?e)"
  let ?v = "visited(?u \<mapsto> ?c)"
  have ein: "?e \<in> set pq"
    by (rule heappop_fst_in [OF ne])
  have split: "\<And>e0. e0 \<in> set pq \<Longrightarrow> e0 = ?e \<or> e0 \<in> set ?pq"
    using heappop_set [OF ne] by auto
  have old_le: "c \<le> ?c" if "visited x = Some c" for x c
    using bfs_inv_mono [OF inv that ein] .
  show "sound_entry self ujb s mj e \<and> fst e = gcost (snd (snd e))" if "e \<in> set pq'" for e
  proof (cases "e \<in> set ?pq")
    case True
    then show ?thesis
      using bfs_inv_entry [OF inv] heappop_snd_subset [of pq] by blast
  next
    case False
    then show ?thesis
      using new [OF that] by blast
  qed
  show "c \<le> gcost q" if h: "?v x = Some c" "walk_from_to self ujb s x q" for x c q
  proof (cases "x = ?u")
    case True
    then show ?thesis
      using h pop_opt [OF inv ne go fresh] by simp
  next
    case False
    then show ?thesis
      using h bfs_inv_opt [OF inv] by simp
  qed
  show "c \<le> fst e" if h: "?v x = Some c" "e \<in> set pq'" for x c e
  proof -
    have c: "c \<le> ?c"
      using h(1) old_le by (cases "x = ?u") simp_all
    have "?c \<le> fst e"
    proof (cases "e \<in> set ?pq")
      case True
      then have "e \<in> set pq"
        using heappop_snd_subset [of pq] by blast
      then show ?thesis
        by (rule heappop_cost_le)
    next
      case False
      then show ?thesis
        using new [OF h(2)] by blast
    qed
    with c show ?thesis by simp
  qed
  show "(\<exists>c'. ?v v = Some c' \<and> c' \<le> c + GATE_COST) \<or>
        (\<exists>e \<in> set pq'. fst (snd e) = v \<and> fst e \<le> c + GATE_COST)"
    if h: "?v x = Some c" "c < mj * 2 * GATE_COST" "v \<in> set (gate_edges self x)" for x c v
  proof (cases "x = ?u")
    case True
    then have "c = ?c"
      using h(1) by simp
    then show ?thesis
      using relax [of v] h(2,3) True by simp
  next
    case False
    then have vx: "visited x = Some c"
      using h(1) by simp
    consider (a) c1 where "visited v = Some c1" "c1 \<le> c + GATE_COST"
      | (b) e0 where "e0 \<in> set pq" "fst (snd e0) = v" "fst e0 \<le> c + GATE_COST"
      using bfs_inv_relaxed [OF inv vx h(2,3)] by blast
    then show ?thesis
    proof cases
      case a
      then have "v \<noteq> ?u"
        using fresh by auto
      then show ?thesis
        using a by auto
    next
      case b
      show ?thesis
      proof (cases "e0 = ?e")
        case True
        then have "?v v = Some ?c" "?c \<le> c + GATE_COST"
          using b by auto
        then show ?thesis by blast
      next
        case False
        then have "e0 \<in> set pq'"
          using split b(1) sub by blast
        then show ?thesis
          using b by blast
      qed
    qed
  qed
  show "(\<exists>c. ?v s = Some c) \<or> (\<exists>e \<in> set pq'. fst (snd e) = s \<and> fst e \<le> 0)"
  proof -
    consider (a) c1 where "visited s = Some c1"
      | (b) e0 where "e0 \<in> set pq" "fst (snd e0) = s" "fst e0 \<le> 0"
      using bfs_inv_start [OF inv] by blast
    then show ?thesis
    proof cases
      case a
      then show ?thesis by auto
    next
      case b
      show ?thesis
      proof (cases "e0 = ?e")
        case True
        then show ?thesis
          using b by auto
      next
        case False
        then have "e0 \<in> set pq'"
          using split b(1) sub by blast
        then show ?thesis
          using b by blast
      qed
    qed
  qed
qed

lemma pop_prune:
  assumes inv: "bfs_inv self ujb s mj pq visited" and ne: "pq \<noteq> []" and go: "gate_only self ujb"
    and fresh: "visited (fst (snd (fst (heappop pq)))) = None"
    and long: "int (length (snd (snd (fst (heappop pq))))) > mj * 2"
  shows "bfs_inv self ujb s mj (snd (heappop pq))
           (visited(fst (snd (fst (heappop pq))) \<mapsto> fst (fst (heappop pq))))"
proof (rule pop_visit [OF inv ne go fresh])
  show "set (snd (heappop pq)) \<subseteq> set (snd (heappop pq))"
    by simp
  show "sound_entry self ujb s mj e \<and> fst e = gcost (snd (snd e)) \<and> fst (fst (heappop pq)) \<le> fst e"
    if "e \<in> set (snd (heappop pq))" "e \<notin> set (snd (heappop pq))" for e
    using that by simp
  have "mj * 2 * GATE_COST \<le> gcost (snd (snd (fst (heappop pq))))"
    unfolding gcost_def using long GATE_COST_pos by (intro mult_right_mono) simp_all
  then have "\<not> fst (fst (heappop pq)) < mj * 2 * GATE_COST"
    using pop_cost_bound(1) [OF inv ne] by simp
  then show "(\<exists>c'. (visited(fst (snd (fst (heappop pq))) \<mapsto> fst (fst (heappop pq)))) v = Some c'
                      \<and> c' \<le> fst (fst (heappop pq)) + GATE_COST) \<or>
         (\<exists>e \<in> set (snd (heappop pq)). fst (snd e) = v \<and> fst e \<le> fst (fst (heappop pq)) + GATE_COST)"
    if "fst (fst (heappop pq)) < mj * 2 * GATE_COST" for v
    using that by simp
qed

lemma pushed_Nil: "pushed visited c p [] = []"
  by (simp add: pushed_def)

lemma pop_expand:
  assumes inv: "bfs_inv self ujb s mj pq visited" and ne: "pq \<noteq> []" and go: "gate_only self ujb"
    and fresh: "visited (fst (snd (fst (heappop pq)))) = None"
    and short: "\<not> int (length (snd (snd (fst (heappop pq))))) > mj * 2"
    and mj: "mj \<le> 100"
  shows "bfs_inv self ujb s mj
           (explore self ujb (visited(fst (snd (fst (heappop pq))) \<mapsto> fst (fst (heappop pq))))
              (fst (fst (heappop pq))) (fst (snd (fst (heappop pq)))) (snd (snd (fst (heappop pq))))
              (snd (heappop pq)))
           (visited(fst (snd (fst (heappop pq))) \<mapsto> fst (fst (heappop pq))))"
proof -
  let ?e = "fst (heappop pq)" and ?pq = "snd (heappop pq)"
  let ?c = "fst ?e" and ?u = "fst (snd ?e)" and ?p = "snd (snd ?e)"
  let ?v = "visited(?u \<mapsto> ?c)"
  let ?new = "pushed ?v (?c + GATE_COST) ?p (gate_edges self ?u)"
  have c: "?c = gcost ?p"
    by (rule pop_cost_bound(1) [OF inv ne])
  have k: "0 \<le> int (length ?p) - 1" "int (length ?p) - 1 \<le> 1000"
    using pop_cost_bound(2) [OF inv ne] short mj by linarith+
  have fa: "float_add ?c GATE_COST = ?c + GATE_COST"
    unfolding c gcost_def using float_add_gate [OF k] by (simp add: algebra_simps)
  have jb: "jb_edges self ujb ?u = []"
    using go by (simp add: gate_only_def)
  have ex: "explore self ujb ?v ?c ?u ?p ?pq = ?pq @ ?new"
    by (simp add: explore_eq jb fa pushed_Nil)
  have rest: "\<forall>e \<in> set ?pq. sound_entry self ujb s mj e"
    using bfs_inv_entry [OF inv] heappop_snd_subset [of pq] by blast
  have e: "sound_entry self ujb s mj (?c, ?u, ?p)"
    using pop_cost_bound(4) [OF inv ne] by simp
  have snd_all: "\<forall>e \<in> set (?pq @ ?new). sound_entry self ujb s mj e"
    using sound_explore [OF rest e short, of ?v] unfolding ex .
  show ?thesis
    unfolding ex
  proof (rule pop_visit [OF inv ne go fresh])
    show "set ?pq \<subseteq> set (?pq @ ?new)"
      by simp
    show "sound_entry self ujb s mj e \<and> fst e = gcost (snd (snd e)) \<and> ?c \<le> fst e"
      if h: "e \<in> set (?pq @ ?new)" "e \<notin> set ?pq" for e
    proof -
      have "e \<in> set ?new"
        using h by simp
      then obtain n where n: "e = (?c + GATE_COST, n, ?p @ [n])"
        by (auto simp: set_pushed)
      have "fst e = gcost (snd (snd e))"
        by (simp add: n gcost_snoc c)
      moreover have "?c \<le> fst e"
        using GATE_COST_pos by (simp add: n)
      ultimately show ?thesis
        using snd_all h(1) by blast
    qed
    show "(\<exists>c'. ?v v = Some c' \<and> c' \<le> ?c + GATE_COST) \<or>
          (\<exists>e \<in> set (?pq @ ?new). fst (snd e) = v \<and> fst e \<le> ?c + GATE_COST)"
      if h: "?c < mj * 2 * GATE_COST" "v \<in> set (gate_edges self ?u)" for v
    proof (cases "case ?v v of None \<Rightarrow> True | Some c' \<Rightarrow> c' > ?c + GATE_COST")
      case True
      then have "(?c + GATE_COST, v, ?p @ [v]) \<in> set ?new"
        using h(2) by (auto simp: set_pushed)
      then have "\<exists>e \<in> set (?pq @ ?new). fst (snd e) = v \<and> fst e \<le> ?c + GATE_COST"
        by force
      then show ?thesis ..
    next
      case False
      then obtain c' where "?v v = Some c'" "c' \<le> ?c + GATE_COST"
        by (cases "?v v") auto
      then show ?thesis by blast
    qed
  qed
qed

lemma bfs_inv_init: "0 \<le> mj \<Longrightarrow> bfs_inv self ujb s mj [(0, s, [s])] Map.empty"
  by (rule bfs_invI) (auto simp: sound_entry_def walk_from_to_def gcost_def)

lemma dijkstra_Nil: "dijkstra self t mj ujb [] visited = None"
  by (simp add: dijkstra.simps)

lemma dijkstra_gate_only:
  "bfs_inv self ujb s mj pq visited \<Longrightarrow> gate_only self ujb \<Longrightarrow> mj \<le> 100 \<Longrightarrow>
   visited t = None \<Longrightarrow>
   gate_only_result self ujb s t mj (dijkstra self t mj ujb pq visited)"
proof (induction self t mj ujb pq visited rule: dijkstra.induct)
  case (1 self t mj ujb pq visited)
  note inv = "1.prems"(1) and go = "1.prems"(2) and mj = "1.prems"(3) and tn = "1.prems"(4)
  let ?e = "fst (heappop pq)"
  let ?c = "fst ?e" and ?u = "fst (snd ?e)" and ?p = "snd (snd ?e)" and ?pq = "snd (heappop pq)"
  let ?v = "visited(?u \<mapsto> ?c)"
  show ?case
  proof (cases "pq = []")
    case True
    have "gcost q > mj * 2 * GATE_COST" if "walk_from_to self ujb s t q" for q
      using frontier [OF inv go that] tn True by simp
    then show ?thesis
      using True by (simp add: dijkstra_Nil gate_only_result_def)
  next
    case ne: False
    show ?thesis
    proof (cases "case visited ?u of Some c \<Rightarrow> c \<le> ?c | None \<Rightarrow> False")
      case True
      then obtain c' where c': "visited ?u = Some c'" "c' \<le> ?c"
        by (cases "visited ?u") auto
      have eq: "dijkstra self t mj ujb pq visited = dijkstra self t mj ujb ?pq visited"
        using ne True by (simp add: dijkstra.simps [of self t mj ujb pq visited] Let_def)
      show ?thesis
        unfolding eq
        by (rule "1.IH"(1) [OF ne refl refl refl refl refl True pop_skip [OF inv ne c'] go mj tn])
    next
      case nv: False
      have fresh: "visited ?u = None"
        by (rule pop_fresh [OF inv ne nv])
      show ?thesis
      proof (cases "?u = t")
        case True
        have eq: "dijkstra self t mj ujb pq visited = Some ?p"
          using ne nv True by (simp add: dijkstra.simps [of self t mj ujb pq visited] Let_def)
        have w: "walk_from_to self ujb s t ?p" and l: "int (length ?p) \<le> mj * 2 + 1"
          using pop_cost_bound(4) [OF inv ne] True by (simp_all add: sound_entry_def)
        have "gcost ?p \<le> gcost q" if "walk_from_to self ujb s t q" for q
          using pop_opt [OF inv ne go fresh] that True pop_cost_bound(1) [OF inv ne] by simp
        then show ?thesis
          unfolding eq using w l by (simp add: gate_only_result_def)
      next
        case nt: False
        have tn': "?v t = None"
          using tn nt by simp
        show ?thesis
        proof (cases "int (length ?p) > mj * 2")
          case True
          have eq: "dijkstra self t mj ujb pq visited = dijkstra self t mj ujb ?pq ?v"
            using ne nv nt True by (simp add: dijkstra.simps [of self t mj ujb pq visited] Let_def)
          show ?thesis
            unfolding eq
            by (rule "1.IH"(2) [OF ne refl refl refl refl refl nv refl nt True
                  pop_prune [OF inv ne go fresh True] go mj tn'])
        next
          case False
          have eq: "dijkstra self t mj ujb pq visited
              = dijkstra self t mj ujb (explore self ujb ?v ?c ?u ?p ?pq) ?v"
            using ne nv nt False by (simp add: dijkstra.simps [of self t mj ujb pq visited] Let_def)
          show ?thesis
            unfolding eq
            by (rule "1.IH"(3) [OF ne refl refl refl refl refl nv refl nt False
                  pop_expand [OF inv ne go fresh False mj] go mj tn'])
        qed
      qed
    qed
  qed
qed

lemma walk_cost_from_gate:
  "gate_only self ujb \<Longrightarrow> 0 \<le> k \<Longrightarrow> k + int (length p) \<le> 1001 \<Longrightarrow> p \<noteq> [] \<Longrightarrow>
   walk_cost_from self ujb (k * GATE_COST) p = (k + int (length p) - 1) * GATE_COST"
proof (induction p arbitrary: k)
  case Nil
  then show ?case by simp
next
  case (Cons u rest)
  show ?case
  proof (cases rest)
    case Nil
    then show ?thesis by simp
  next
    case (Cons v rest')
    have ec: "edge_cost self ujb u v = GATE_COST"
      using Cons.prems(1) by (simp add: edge_cost_def gate_only_def)
    have fa: "float_add (k * GATE_COST) GATE_COST = (k + 1) * GATE_COST"
      using Cons.prems by (intro float_add_gate) auto
    have "walk_cost_from self ujb ((k + 1) * GATE_COST) rest
        = (k + 1 + int (length rest) - 1) * GATE_COST"
      using Cons.prems Cons by (intro Cons.IH) auto
    then show ?thesis
      using Cons by (simp add: ec fa)
  qed
qed

lemma walk_cost_gate:
  "gate_only self ujb \<Longrightarrow> p \<noteq> [] \<Longrightarrow> int (length p) \<le> 1001 \<Longrightarrow> walk_cost self ujb p = gcost p"
  using walk_cost_from_gate [of self ujb 0 p] by (simp add: walk_cost_def gcost_def)

lemma names_of_walk:
  "all_named self ujb \<Longrightarrow> is_walk self ujb p \<Longrightarrow> system_id_to_name self (hd p) \<noteq> None \<Longrightarrow>
   \<exists>names. names_of self p = Inr names \<and> length names = length p"
proof (induction p)
  case Nil
  then show ?case by simp
next
  case (Cons u rest)
  obtain n where n: "system_id_to_name self u = Some n"
    using Cons.prems(3) by auto
  show ?case
  proof (cases rest)
    case Nil
    then show ?thesis by (simp add: n)
  next
    case (Cons v rest')
    have e: "edge self ujb u v" and w: "is_walk self ujb rest"
      using Cons.prems(2) Cons by simp_all
    have "system_id_to_name self (hd rest) \<noteq> None"
      using Cons.prems(1) e Cons unfolding all_named_def by auto
    then obtain names where "names_of self rest = Inr names" "length names = length rest"
      using Cons.IH [OF Cons.prems(1) w] by blast
    then show ?thesis
      by (simp add: n)
  qed
qed

lemma find_path_resolved:
  assumes "resolves self a sid" and "resolves self b tid" and "1 \<le> mj" and "mj \<le> 100"
  shows "find_path self a b mj ujb =
         (if sid = tid then Inr (Some [the (validate_system_name a)])
          else (case dijkstra self tid mj ujb [(0, sid, [sid])] Map.empty of
                  None \<Rightarrow> Inr None
                | Some path \<Rightarrow>
                    (case names_of self path of Inl e \<Rightarrow> Inl e | Inr names \<Rightarrow> Inr (Some names))))"
  using assms by (auto simp: find_path_def resolves_def validate_integer_def Let_def)





lemma find_path_gate_only:
  assumes go: "gate_only self ujb" and named: "all_named self ujb"
  shows "finds_cheapest self a b mj ujb"
  unfolding finds_cheapest_def
proof (intro allI impI)
  fix sid tid q
  assume h: "resolves self a sid \<and> resolves self b tid \<and> 1 \<le> mj \<and> mj \<le> 100 \<and>
        walk_from_to self ujb sid tid q \<and> int (length q) - 1 \<le> 2 * mj"
  then have r: "resolves self a sid" "resolves self b tid" "1 \<le> mj" "mj \<le> 100"
    and q: "walk_from_to self ujb sid tid q" "int (length q) - 1 \<le> 2 * mj"
    by simp_all
  note fp = find_path_resolved [OF r, of ujb]
  obtain na where na: "validate_system_name a = Some na" "system_name_to_id self na = Some sid"
    using r(1) by (auto simp: resolves_def)
  have sn: "system_id_to_name self sid = Some na"
    using named na(2) by (simp add: all_named_def)
  have qne: "q \<noteq> []" and ql: "int (length q) \<le> 1001"
    using q r(4) by (auto simp: walk_from_to_def)
  have cq: "walk_cost self ujb q = gcost q"
    by (rule walk_cost_gate [OF go qne ql])
  have gq: "gcost q \<le> mj * 2 * GATE_COST"
    unfolding gcost_def using q(2) GATE_COST_pos by (intro mult_right_mono) simp_all
  show "\<exists>p names. find_path self a b mj ujb = Inr (Some names) \<and> names_of self p = Inr names \<and>
           walk_from_to self ujb sid tid p \<and> int (length p) - 1 \<le> 2 * mj \<and>
           walk_cost self ujb p \<le> walk_cost self ujb q"
  proof (cases "sid = tid")
    case True
    have z: "walk_cost self ujb [sid] = 0"
      by (simp add: walk_cost_def)
    have "0 \<le> gcost q"
      using qne by (cases q) (simp_all add: gcost_def GATE_COST_def)
    then have "walk_cost self ujb [sid] \<le> walk_cost self ujb q"
      by (simp only: z cq)
    then show ?thesis
      using True fp na sn r(3)
      by (intro exI [of _ "[sid]"] exI [of _ "[na]"]) (simp add: walk_from_to_def)
  next
    case False
    have res: "gate_only_result self ujb sid tid mj
        (dijkstra self tid mj ujb [(0, sid, [sid])] Map.empty)"
      using r(3) by (intro dijkstra_gate_only bfs_inv_init go r(4)) simp_all
    obtain p where d: "dijkstra self tid mj ujb [(0, sid, [sid])] Map.empty = Some p"
      using res q(1) gq by (cases "dijkstra self tid mj ujb [(0, sid, [sid])] Map.empty")
        (fastforce simp: gate_only_result_def)+
    have p: "walk_from_to self ujb sid tid p" "int (length p) \<le> mj * 2 + 1" "gcost p \<le> gcost q"
      using res q(1) d by (auto simp: gate_only_result_def)
    have pne: "p \<noteq> []" and pl: "int (length p) \<le> 1001" and hp: "hd p = sid"
      using p r(4) by (auto simp: walk_from_to_def)
    obtain names where names: "names_of self p = Inr names"
      using names_of_walk [OF named, of p] p(1) hp sn by (auto simp: walk_from_to_def)
    have "walk_cost self ujb p \<le> walk_cost self ujb q"
      using p(3) by (simp add: cq walk_cost_gate [OF go pne pl])
    then show ?thesis
      using False fp d names p
      by (intro exI [of _ p] exI [of _ names]) simp
  qed
qed

lemma ex_resolves:
  "resolves ex_sde ''S'' 1" "resolves ex_sde ''D'' 4" "resolves ex_sde ''A'' 3"
proof -
  have v: "validate_system_name ''S'' = Some ''S''" "validate_system_name ''D'' = Some ''D''"
    "validate_system_name ''A'' = Some ''A''"
    by code_simp+
  have i: "system_name_to_id ex_sde ''S'' = Some 1" "system_name_to_id ex_sde ''D'' = Some 4"
    "system_name_to_id ex_sde ''A'' = Some 3"
    by code_simp+
  show "resolves ex_sde ''S'' 1" "resolves ex_sde ''D'' 4" "resolves ex_sde ''A'' 3"
    unfolding resolves_def using v i by simp_all
qed

lemma ex_walks:
  "walk_from_to ex_sde True 1 4 [1, 2, 3, 4]" "walk_from_to ex_sde False 1 4 [1, 2, 3, 4]"
  "walk_from_to ex_sde False 1 3 [1, 2, 3]"
  by code_simp+

lemma ex_gate_only: "gate_only ex_sde False"
  by (simp add: gate_only_def jb_edges_def)

lemma ex_all_named: "all_named ex_sde False"
  unfolding all_named_def
proof (intro conjI allI impI)
  fix n i
  assume "system_name_to_id ex_sde n = Some i"
  then show "system_id_to_name ex_sde i = Some n"
    by (auto simp: ex_sde_def ex_names_def split: if_splits)
next
  fix u v
  assume "edge ex_sde False u v"
  then show "system_id_to_name ex_sde v \<noteq> None"
    by (auto simp: edge_def gate_edges_def jb_edges_def ex_sde_def ex_names_def
        split: if_splits)
qed

text \<open>
  Claim C1.  The claim wants find_path to return a cheapest path whenever the two
  systems are joined within the bound of 2 x max_jumps edges.  The program marks a
  system visited at its first pop, also when that path is already longer than the bound
  and is not expanded.  In the example universe S, X, A, D lie on a line of gates and a
  chain of six jumpbridges leads from S to A; D is three gate jumps from S, within
  max_jumps = 3 and within the bound of six edges.  A is first popped with the
  jumpbridge path (cost 1.8, seven systems), marked visited and dropped as too long; the
  gate path to A (cost 2.0) is then skipped as already visited, the queue runs empty and
  find_path returns None: the claim does not hold of this call.
\<close>

theorem find_path_none_within_bound:
  "find_path ex_sde ''S'' ''D'' 3 True = Inr None \<and>
   resolves ex_sde ''S'' 1 \<and> resolves ex_sde ''D'' 4 \<and>
   walk_from_to ex_sde True 1 4 [1, 2, 3, 4] \<and>
   int (length [1 :: int, 2, 3, 4]) - 1 \<le> 2 * 3 \<and>
   walk_cost ex_sde True [1, 2, 3, 4] = 3 * GATE_COST \<and>
   find_path ex_sde ''S'' ''A'' 3 True
     = Inr (Some [''S'', ''J1'', ''J2'', ''J3'', ''J4'', ''J5'', ''A''])"
proof -
  have "find_path ex_sde ''S'' ''D'' 3 True = Inr None"
    by code_simp
  moreover have "walk_cost ex_sde True [1, 2, 3, 4] = 3 * GATE_COST"
    by code_simp
  moreover have "find_path ex_sde ''S'' ''A'' 3 True
     = Inr (Some [''S'', ''J1'', ''J2'', ''J3'', ''J4'', ''J5'', ''A''])"
    by code_simp
  ultimately show ?thesis
    using ex_resolves(1,2) ex_walks(1) by simp
qed

text \<open>The same call, as the negation of the property the claim asks of find_path.\<close>

theorem find_path_misses_path_within_bound:
  "\<not> finds_cheapest ex_sde ''S'' ''D'' 3 True"
proof
  assume "finds_cheapest ex_sde ''S'' ''D'' 3 True"
  then have "\<exists>p names. find_path ex_sde ''S'' ''D'' 3 True = Inr (Some names) \<and>
      names_of ex_sde p = Inr names \<and> walk_from_to ex_sde True 1 4 p \<and>
      int (length p) - 1 \<le> 2 * 3 \<and>
      walk_cost ex_sde True p \<le> walk_cost ex_sde True [1, 2, 3, 4]"
    unfolding finds_cheapest_def using ex_resolves(1,2) ex_walks(1)
    by (elim allE [of _ 1] allE [of _ 4] allE [of _ "[1, 2, 3, 4]"]) simp
  moreover have "find_path ex_sde ''S'' ''D'' 3 True = Inr None"
    by code_simp
  ultimately show False
    by simp
qed

text \<open>
  Where no jumpbridge edge is in play and every system is named, the search does what
  the claim on find_path asks: for every pair of names that resolve and are joined by a
  walk of at most 2 x max_jumps edges it returns the names of such a walk of least cost.
\<close>

theorem gate_only_find_path_cheapest:
  assumes "gate_only self use_jumpbridges" and "all_named self use_jumpbridges"
  shows "finds_cheapest self a b max_jumps use_jumpbridges"
  using assms by (rule find_path_gate_only)

theorem gate_only_find_path_cheapest_witness:
  "\<exists>p names. find_path ex_sde ''S'' ''D'' 3 False = Inr (Some names) \<and>
      names_of ex_sde p = Inr names \<and> walk_from_to ex_sde False 1 4 p \<and>
      int (length p) - 1 \<le> 2 * 3 \<and>
      walk_cost ex_sde False p \<le> walk_cost ex_sde False [1, 2, 3, 4]"
  using gate_only_find_path_cheapest [OF ex_gate_only ex_all_named, of "''S''" "''D''" 3]
    ex_resolves(1,2) ex_walks(2)
  unfolding finds_cheapest_def
  by (elim allE [of _ 1] allE [of _ 4] allE [of _ "[1, 2, 3, 4]"]) simp



end
